theory Spec2Isabelle
  imports Main "HOL-Library.Word"
begin

section \<open>The options visitor of \<^verbatim>\<open>hw/arm/vexpress.c\<close> (second part: qapi/opts-visitor.c)\<close>

text \<open>
  The visitor decodes a flat sequence of \<^verbatim>\<open>QemuOpt\<close> name/value pairs into typed values.
  Every callback of the source is a \<^verbatim>\<open>void\<close> function that mutates the visitor, may
  write its result through \<^verbatim>\<open>obj\<close> and may set an error through \<^verbatim>\<open>errp\<close>. The model
  returns all three; an \<^verbatim>\<open>assert\<close> that fails or a call of \<^verbatim>\<open>abort()\<close> is \<open>Abort\<close>, and a
  dereference of a null or dangling pointer, or a GLib call on a null table, is
  \<open>Undefined\<close>. The output structures that the caller allocates and links are left out.
\<close>

subsection \<open>Data\<close>

text \<open>\<^verbatim>\<open>QemuOpt\<close> (qemu/option_int.h): only \<^verbatim>\<open>name\<close> and \<^verbatim>\<open>str\<close> are read by the visitor;
  \<^verbatim>\<open>str\<close> is a null pointer for an option given without a value.\<close>

record QemuOpt =
  name :: string
  str :: "string option"

text \<open>\<^verbatim>\<open>QemuOpts\<close>: the list \<^verbatim>\<open>head\<close> in order, and the optional \<^verbatim>\<open>id\<close>.\<close>

record QemuOpts =
  head :: "QemuOpt list"
  opts_id :: "string option"

datatype ListMode =
    LM_NONE
  | LM_STARTED
  | LM_IN_PROGRESS
  | LM_SIGNED_INTERVAL
  | LM_UNSIGNED_INTERVAL

text \<open>A \<^verbatim>\<open>GQueue\<close> of options, head first. A \<^verbatim>\<open>GHashTable\<close> from names to queues is kept as
  an association list; the position of an entry stands for the table's iteration order,
  which GLib leaves unspecified.\<close>

type_synonym GQueue = "QemuOpt list"
type_synonym GHashTable = "(string \<times> GQueue) list"

text \<open>\<^verbatim>\<open>GQueue *repeated_opts\<close>: every queue is owned by exactly one key of the table, so a
  pointer to a live queue is the key it is stored under, and a change made through the
  pointer is a change of the queue in the table. The queue of a key that has been
  removed, or of a table that has been destroyed, is freed: the pointer then refers to
  nothing. \<open>Dangling\<close> is a pointer into a table that has been replaced.\<close>

datatype GQueue_ptr = NULL | Ptr string | Dangling

text \<open>The union \<^verbatim>\<open>{ int64_t s; uint64_t u; }\<close> is one 64-bit word, compared signed
  (\<open><s\<close>) through \<^verbatim>\<open>.s\<close> and unsigned (\<open><\<close>) through \<^verbatim>\<open>.u\<close>.\<close>

record OptsVisitor =
  opts_root :: QemuOpts
  depth :: "32 word"
  unprocessed_opts :: "GHashTable option"
  list_mode :: ListMode
  repeated_opts :: GQueue_ptr
  range_next :: "64 word"
  range_limit :: "64 word"
  fake_id_opt :: "QemuOpt option"

datatype Error =
    QERR_MISSING_PARAMETER string
  | QERR_INVALID_PARAMETER string
  | QERR_INVALID_PARAMETER_VALUE string string

text \<open>\<open>Return e r ov\<close>: the call returned, with \<open>e\<close> the error set through \<^verbatim>\<open>errp\<close> (if any),
  \<open>r\<close> the value written through \<^verbatim>\<open>obj\<close> or returned (if any), and \<open>ov\<close> the visitor
  afterwards.\<close>

datatype 'a outcome =
    Undefined
  | Abort
  | Return "Error option" "'a option" OptsVisitor

abbreviation Done :: "'a \<Rightarrow> OptsVisitor \<Rightarrow> 'a outcome" where
  "Done v ov \<equiv> Return None (Some v) ov"

abbreviation Failed :: "Error \<Rightarrow> OptsVisitor \<Rightarrow> 'a outcome" where
  "Failed e ov \<equiv> Return (Some e) None ov"

abbreviation Returned :: "OptsVisitor \<Rightarrow> 'a outcome" where
  "Returned ov \<equiv> Return None None ov"

subsection \<open>The C library: \<^verbatim>\<open>strtoll\<close> and \<^verbatim>\<open>strtoull\<close> with base 0\<close>

text \<open>ISO C 7.22.1.4, in the C locale: white space, an optional sign, then a hexadecimal
  (\<^verbatim>\<open>0x\<close>), octal (\<^verbatim>\<open>0\<close>) or decimal digit sequence. The end pointer is the unread rest of
  the string; when no digit is read it is the whole string and the value is 0.\<close>

definition isspace :: "char \<Rightarrow> bool" where
  "isspace c \<longleftrightarrow> c \<in> set [CHR '' '', CHR 0x09, CHR 0x0A, CHR 0x0B, CHR 0x0C, CHR 0x0D]"

definition digit_of :: "char \<Rightarrow> int option" where
  "digit_of c =
     (let n = (of_char c :: int) in
      if 48 \<le> n \<and> n \<le> 57 then Some (n - 48)
      else if 97 \<le> n \<and> n \<le> 122 then Some (n - 87)
      else if 65 \<le> n \<and> n \<le> 90 then Some (n - 55)
      else None)"

definition is_digit_in :: "int \<Rightarrow> char \<Rightarrow> bool" where
  "is_digit_in b c = (case digit_of c of None \<Rightarrow> False | Some d \<Rightarrow> d < b)"

fun scan_digits :: "int \<Rightarrow> string \<Rightarrow> int \<Rightarrow> int \<times> string" where
  "scan_digits b [] acc = (acc, [])"
| "scan_digits b (c # cs) acc =
     (case digit_of c of
        None \<Rightarrow> (acc, c # cs)
      | Some d \<Rightarrow> if d < b then scan_digits b cs (acc * b + d) else (acc, c # cs))"

text \<open>The base and where the digits start.\<close>

fun scan_base :: "string \<Rightarrow> int \<times> string" where
  "scan_base (z # x # h # cs) =
     (if z = CHR ''0'' \<and> (x = CHR ''x'' \<or> x = CHR ''X'') \<and> is_digit_in 16 h
      then (16, h # cs)
      else if z = CHR ''0'' then (8, z # x # h # cs) else (10, z # x # h # cs))"
| "scan_base (z # cs) = (if z = CHR ''0'' then (8, z # cs) else (10, z # cs))"
| "scan_base [] = (10, [])"

text \<open>\<open>None\<close>: no conversion. Otherwise the sign, the magnitude and the rest.\<close>

definition scan_number :: "string \<Rightarrow> (bool \<times> int \<times> string) option" where
  "scan_number s =
     (let s1 = dropWhile isspace s;
          neg = (case s1 of [] \<Rightarrow> False | c # _ \<Rightarrow> c = CHR ''-'');
          s2 = (case s1 of [] \<Rightarrow> [] | c # cs \<Rightarrow> if c = CHR ''-'' \<or> c = CHR ''+'' then cs else s1);
          (b, s3) = scan_base s2;
          (mag, rest) = scan_digits b s3 0
      in if length rest = length s3 then None else Some (neg, mag, rest))"

definition ERANGE :: int where "ERANGE = 34"
definition EINVAL :: int where "EINVAL = 22"

definition INT64_MAX :: "64 word" where "INT64_MAX = 0x7FFFFFFFFFFFFFFF"
definition INT64_MIN :: "64 word" where "INT64_MIN = 0x8000000000000000"
definition UINT64_MAX :: "64 word" where "UINT64_MAX = 0xFFFFFFFFFFFFFFFF"

text \<open>\<open>strtoll s errno\<close> is the value, the end pointer and \<^verbatim>\<open>errno\<close> afterwards
  (\<^verbatim>\<open>errno\<close> is written only on overflow).\<close>

definition strtoll :: "string \<Rightarrow> int \<Rightarrow> 64 word \<times> string \<times> int" where
  "strtoll s errno =
     (case scan_number s of
        None \<Rightarrow> (0, s, errno)
      | Some (neg, mag, rest) \<Rightarrow>
          if neg then (if mag > 9223372036854775808 then (INT64_MIN, rest, ERANGE) else (- of_int mag, rest, errno))
          else (if mag > 9223372036854775807 then (INT64_MAX, rest, ERANGE) else (of_int mag, rest, errno)))"

definition strtoull :: "string \<Rightarrow> int \<Rightarrow> 64 word \<times> string \<times> int" where
  "strtoull s errno =
     (case scan_number s of
        None \<Rightarrow> (0, s, errno)
      | Some (neg, mag, rest) \<Rightarrow>
          if mag > 18446744073709551615 then (UINT64_MAX, rest, ERANGE)
          else if neg then (- of_int mag, rest, errno)
          else (of_int mag, rest, errno))"

text \<open>Signed 64-bit addition and subtraction; \<open>None\<close> when the exact result leaves the
  \<^verbatim>\<open>int64_t\<close> range (undefined behaviour in C).\<close>

definition int64_add :: "64 word \<Rightarrow> 64 word \<Rightarrow> 64 word option" where
  "int64_add a b =
     (if - (2 ^ 63) \<le> sint a + sint b \<and> sint a + sint b < 2 ^ 63 then Some (a + b) else None)"

definition int64_sub :: "64 word \<Rightarrow> 64 word \<Rightarrow> 64 word option" where
  "int64_sub a b =
     (if - (2 ^ 63) \<le> sint a - sint b \<and> sint a - sint b < 2 ^ 63 then Some (a - b) else None)"

subsection \<open>Helpers that are not in the source file\<close>

text \<open>Modelled from the spec: \<^verbatim>\<open>parse_uint\<close> and \<^verbatim>\<open>parse_uint_full\<close> (util/cutils.c) are not
  in the source file. The spec has the unsigned decoder mirror the signed one "with
  unsigned parsing", in a grammar that "has no unary minus": the literal forms are those
  of \<^verbatim>\<open>strtoull\<close>, a string whose first character after white space is a minus sign is
  rejected, and an absent string (a null pointer) is rejected as the empty string is.
  The result is the return code (0 or a negated \<^verbatim>\<open>errno\<close> value), the value and the end
  pointer; \<^verbatim>\<open>parse_uint_full\<close> also rejects a string that is not read to its end. (QEMU
  documents \<^verbatim>\<open>parse_uint\<close> so: a null string, or one that does not start with a number,
  gives \<^verbatim>\<open>-EINVAL\<close>; a negative number or an overflow gives \<^verbatim>\<open>-ERANGE\<close>.)\<close>

definition parse_uint :: "string option \<Rightarrow> int \<times> 64 word \<times> string" where
  "parse_uint s0 =
     (case s0 of
        None \<Rightarrow> (- EINVAL, 0, [])
      | Some s \<Rightarrow>
          (case strtoull s 0 of (val, endp, errno) \<Rightarrow>
             if errno \<noteq> 0 then (- errno, val, endp)
             else if length endp = length s then (- EINVAL, val, endp)
             else (case dropWhile isspace s of
                     c # _ \<Rightarrow> if c = CHR ''-'' then (- ERANGE, 0, endp) else (0, val, endp)
                   | [] \<Rightarrow> (0, val, endp))))"

definition parse_uint_full :: "string option \<Rightarrow> int \<times> 64 word" where
  "parse_uint_full s =
     (case parse_uint s of (r, val, endp) \<Rightarrow>
        if r < 0 then (r, val) else if endp \<noteq> [] then (- EINVAL, 0) else (0, val))"

subsection \<open>GLib queues and hash tables\<close>

definition g_queue_peek_head :: "GQueue \<Rightarrow> QemuOpt option" where
  "g_queue_peek_head q = (case q of [] \<Rightarrow> None | x # _ \<Rightarrow> Some x)"

definition g_queue_peek_tail :: "GQueue \<Rightarrow> QemuOpt option" where
  "g_queue_peek_tail q = (if q = [] then None else Some (last q))"

definition g_hash_table_lookup :: "GHashTable \<Rightarrow> string \<Rightarrow> GQueue option" where
  "g_hash_table_lookup t k = map_of t k"

text \<open>A queue is changed in place (\<^verbatim>\<open>g_queue_push_tail\<close>, \<^verbatim>\<open>g_queue_pop_head\<close>): the table
  then holds the changed queue under the same key, at the same place.\<close>

fun set_queue :: "GHashTable \<Rightarrow> string \<Rightarrow> GQueue \<Rightarrow> GHashTable" where
  "set_queue [] k q = []"
| "set_queue ((k', q') # t) k q =
     (if k' = k then (k, q) # t else (k', q') # set_queue t k q)"

text \<open>\<^verbatim>\<open>g_hash_table_insert\<close>; the visitor calls it for a key that is not in the table.\<close>

definition g_hash_table_insert :: "GHashTable \<Rightarrow> string \<Rightarrow> GQueue \<Rightarrow> GHashTable" where
  "g_hash_table_insert t k q = (if map_of t k = None then t @ [(k, q)] else set_queue t k q)"

definition g_hash_table_remove :: "GHashTable \<Rightarrow> string \<Rightarrow> GHashTable" where
  "g_hash_table_remove t k = filter (\<lambda>e. fst e \<noteq> k) t"

text \<open>\<^verbatim>\<open>g_hash_table_find(t, &ghr_true, NULL)\<close>: the value of the first entry met.\<close>

definition g_hash_table_find_any :: "GHashTable \<Rightarrow> GQueue option" where
  "g_hash_table_find_any t = (case t of [] \<Rightarrow> None | (_, q) # _ \<Rightarrow> Some q)"

text \<open>The queue a pointer refers to, if it refers to a live one.\<close>

definition deref :: "OptsVisitor \<Rightarrow> GQueue_ptr \<Rightarrow> GQueue option" where
  "deref ov p =
     (case p of
        Ptr k \<Rightarrow> (case unprocessed_opts ov of None \<Rightarrow> None | Some t \<Rightarrow> g_hash_table_lookup t k)
      | _ \<Rightarrow> None)"

subsection \<open>The visitor\<close>

definition opts_visitor_insert :: "GHashTable \<Rightarrow> QemuOpt \<Rightarrow> GHashTable" where
  "opts_visitor_insert unprocessed opt =
     (case g_hash_table_lookup unprocessed (name opt) of
        None \<Rightarrow>
          set_queue (g_hash_table_insert unprocessed (name opt) []) (name opt) ([] @ [opt])
      | Some list \<Rightarrow> set_queue unprocessed (name opt) (list @ [opt]))"

text \<open>The \<^verbatim>\<open>QTAILQ_FOREACH\<close> loop of \<^verbatim>\<open>opts_start_struct\<close>; \<open>None\<close> when its assertion fails.\<close>

fun insert_all :: "GHashTable \<Rightarrow> QemuOpt list \<Rightarrow> GHashTable option" where
  "insert_all t [] = Some t"
| "insert_all t (opt # opts) =
     (if name opt = ''id'' then None else insert_all (opts_visitor_insert t opt) opts)"

text \<open>The allocation of \<^verbatim>\<open>*obj\<close> is left out. A pointer kept in \<^verbatim>\<open>repeated_opts\<close> does not
  point into the table built here.\<close>

definition opts_start_struct :: "OptsVisitor \<Rightarrow> unit outcome" where
  "opts_start_struct ov =
     (let ov1 = ov\<lparr>depth := depth ov + 1\<rparr> in
      if 0 < depth ov then Returned ov1
      else
        (case insert_all [] (head (opts_root ov)) of
           None \<Rightarrow> Abort
         | Some t \<Rightarrow>
             let ov2 = ov1\<lparr>repeated_opts := (if repeated_opts ov = NULL then NULL else Dangling)\<rparr> in
             (case opts_id (opts_root ov) of
                None \<Rightarrow> Returned (ov2\<lparr>unprocessed_opts := Some t\<rparr>)
              | Some i \<Rightarrow>
                  let fake = \<lparr>name = ''id'', str = Some i\<rparr> in
                  Returned (ov2\<lparr>unprocessed_opts := Some (opts_visitor_insert t fake),
                                fake_id_opt := Some fake\<rparr>))))"

definition opts_end_struct :: "OptsVisitor \<Rightarrow> unit outcome" where
  "opts_end_struct ov =
     (let ov1 = ov\<lparr>depth := depth ov - 1\<rparr> in
      if 0 < depth ov1 then Returned ov1
      else
        (case unprocessed_opts ov1 of
           None \<Rightarrow> Undefined
         | Some t \<Rightarrow>
             let ov2 = ov1\<lparr>unprocessed_opts := None, fake_id_opt := None\<rparr> in
             (case g_hash_table_find_any t of
                None \<Rightarrow> Returned ov2
              | Some any \<Rightarrow>
                  (case g_queue_peek_head any of
                     None \<Rightarrow> Undefined
                   | Some first \<Rightarrow> Return (Some (QERR_INVALID_PARAMETER (name first))) None ov2))))"

text \<open>The pointer returned and the error set, or \<open>None\<close> when there is no table.\<close>

definition lookup_distinct :: "OptsVisitor \<Rightarrow> string \<Rightarrow> (GQueue_ptr \<times> Error option) option" where
  "lookup_distinct ov nm =
     (case unprocessed_opts ov of
        None \<Rightarrow> None
      | Some t \<Rightarrow>
          (case g_hash_table_lookup t nm of
             None \<Rightarrow> Some (NULL, Some (QERR_MISSING_PARAMETER nm))
           | Some _ \<Rightarrow> Some (Ptr nm, None)))"

definition opts_start_list :: "OptsVisitor \<Rightarrow> string \<Rightarrow> unit outcome" where
  "opts_start_list ov nm =
     (if list_mode ov \<noteq> LM_NONE then Abort
      else
        (case lookup_distinct ov nm of
           None \<Rightarrow> Undefined
         | Some (list, err) \<Rightarrow>
             let ov1 = ov\<lparr>repeated_opts := list\<rparr> in
             if list \<noteq> NULL then Return err None (ov1\<lparr>list_mode := LM_STARTED\<rparr>)
             else Return err None ov1))"

text \<open>The \<^verbatim>\<open>LM_IN_PROGRESS\<close> case of \<^verbatim>\<open>opts_next_list\<close>, which the interval cases fall
  through to. The result is whether a new link was returned.\<close>

definition pop_option :: "OptsVisitor \<Rightarrow> bool outcome" where
  "pop_option ov =
     (case repeated_opts ov of
        Ptr k \<Rightarrow>
          (case unprocessed_opts ov of
             None \<Rightarrow> Undefined
           | Some t \<Rightarrow>
               (case g_hash_table_lookup t k of
                  None \<Rightarrow> Undefined
                | Some [] \<Rightarrow> Undefined
                | Some (opt # rest) \<Rightarrow>
                    let t1 = set_queue t k rest in
                    if rest = []
                    then Done False (ov\<lparr>unprocessed_opts := Some (g_hash_table_remove t1 (name opt))\<rparr>)
                    else Done True (ov\<lparr>unprocessed_opts := Some t1\<rparr>)))
      | _ \<Rightarrow> Undefined)"

definition opts_next_list :: "OptsVisitor \<Rightarrow> bool outcome" where
  "opts_next_list ov =
     (case list_mode ov of
        LM_STARTED \<Rightarrow> Done True (ov\<lparr>list_mode := LM_IN_PROGRESS\<rparr>)
      | LM_SIGNED_INTERVAL \<Rightarrow>
          if range_next ov <s range_limit ov then Done True (ov\<lparr>range_next := range_next ov + 1\<rparr>)
          else pop_option (ov\<lparr>list_mode := LM_IN_PROGRESS\<rparr>)
      | LM_UNSIGNED_INTERVAL \<Rightarrow>
          if range_next ov < range_limit ov then Done True (ov\<lparr>range_next := range_next ov + 1\<rparr>)
          else pop_option (ov\<lparr>list_mode := LM_IN_PROGRESS\<rparr>)
      | LM_IN_PROGRESS \<Rightarrow> pop_option ov
      | LM_NONE \<Rightarrow> Abort)"

definition opts_end_list :: "OptsVisitor \<Rightarrow> unit outcome" where
  "opts_end_list ov =
     (if list_mode ov = LM_STARTED \<or> list_mode ov = LM_IN_PROGRESS \<or>
         list_mode ov = LM_SIGNED_INTERVAL \<or> list_mode ov = LM_UNSIGNED_INTERVAL
      then Returned (ov\<lparr>repeated_opts := NULL, list_mode := LM_NONE\<rparr>)
      else Abort)"

text \<open>The option returned (a null pointer is \<open>None\<close>) together with the error set.\<close>

definition lookup_scalar :: "OptsVisitor \<Rightarrow> string \<Rightarrow> QemuOpt option outcome" where
  "lookup_scalar ov nm =
     (if list_mode ov = LM_NONE then
        (case lookup_distinct ov nm of
           None \<Rightarrow> Undefined
         | Some (list, err) \<Rightarrow>
             (case deref ov list of
                None \<Rightarrow> Return err (Some None) ov
              | Some q \<Rightarrow> Return err (Some (g_queue_peek_tail q)) ov))
      else if list_mode ov \<noteq> LM_IN_PROGRESS then Abort
      else
        (case deref ov (repeated_opts ov) of
           None \<Rightarrow> Undefined
         | Some q \<Rightarrow> Done (g_queue_peek_head q) ov))"

definition processed :: "OptsVisitor \<Rightarrow> string \<Rightarrow> unit outcome" where
  "processed ov nm =
     (if list_mode ov = LM_NONE then
        (case unprocessed_opts ov of
           None \<Rightarrow> Undefined
         | Some t \<Rightarrow> Returned (ov\<lparr>unprocessed_opts := Some (g_hash_table_remove t nm)\<rparr>))
      else if list_mode ov \<noteq> LM_IN_PROGRESS then Abort
      else Returned ov)"

text \<open>\<^verbatim>\<open>*obj = v; processed(ov, name); return;\<close>\<close>

definition store_processed :: "'a \<Rightarrow> OptsVisitor \<Rightarrow> string \<Rightarrow> 'a outcome" where
  "store_processed v ov nm =
     (case processed ov nm of
        Undefined \<Rightarrow> Undefined
      | Abort \<Rightarrow> Abort
      | Return e _ ov' \<Rightarrow> Return e (Some v) ov')"

text \<open>\<^verbatim>\<open>opt = lookup_scalar(ov, name, errp); if (!opt) return;\<close> and then the body \<open>f\<close>.\<close>

definition with_scalar ::
  "OptsVisitor \<Rightarrow> string \<Rightarrow> (QemuOpt \<Rightarrow> 'a outcome) \<Rightarrow> 'a outcome" where
  "with_scalar ov nm f =
     (case lookup_scalar ov nm of
        Undefined \<Rightarrow> Undefined
      | Abort \<Rightarrow> Abort
      | Return e r ov' \<Rightarrow>
          (case r of
             Some (Some opt) \<Rightarrow> f opt
           | _ \<Rightarrow> Return e None ov'))"

definition opts_type_str :: "OptsVisitor \<Rightarrow> string \<Rightarrow> string outcome" where
  "opts_type_str ov nm =
     with_scalar ov nm (\<lambda>opt.
       store_processed (case str opt of Some s \<Rightarrow> s | None \<Rightarrow> []) ov nm)"

definition opts_type_bool :: "OptsVisitor \<Rightarrow> string \<Rightarrow> bool outcome" where
  "opts_type_bool ov nm =
     with_scalar ov nm (\<lambda>opt.
       case str opt of
         Some s \<Rightarrow>
           if s = ''on'' \<or> s = ''yes'' \<or> s = ''y'' then store_processed True ov nm
           else if s = ''off'' \<or> s = ''no'' \<or> s = ''n'' then store_processed False ov nm
           else Failed (QERR_INVALID_PARAMETER_VALUE (name opt) ''on|yes|y|off|no|n'') ov
       | None \<Rightarrow> store_processed True ov nm)"

text \<open>The last conjunct of the signed interval test,
  \<^verbatim>\<open>val > INT64_MAX - OPTS_VISITOR_RANGE_MAX || val2 < val + OPTS_VISITOR_RANGE_MAX\<close>,
  evaluated left to right; \<open>None\<close> when one of its operations overflows.\<close>

definition signed_interval_fits :: "64 word \<Rightarrow> 64 word \<Rightarrow> 64 word \<Rightarrow> bool option" where
  "signed_interval_fits RANGE_MAX val val2 =
     (case int64_sub INT64_MAX RANGE_MAX of
        None \<Rightarrow> None
      | Some m \<Rightarrow>
          if m <s val then Some True
          else (case int64_add val RANGE_MAX of
                  None \<Rightarrow> None
                | Some u \<Rightarrow> Some (val2 <s u)))"

text \<open>The macro \<^verbatim>\<open>OPTS_VISITOR_RANGE_MAX\<close> (qapi/opts-visitor.h) is not in the source
  file; it is the parameter \<open>RANGE_MAX\<close>.\<close>

definition opts_type_int :: "64 word \<Rightarrow> OptsVisitor \<Rightarrow> string \<Rightarrow> 64 word outcome" where
  "opts_type_int RANGE_MAX ov nm =
     (if list_mode ov = LM_SIGNED_INTERVAL then Done (range_next ov) ov
      else with_scalar ov nm (\<lambda>opt.
        let s = (case str opt of Some s \<Rightarrow> s | None \<Rightarrow> []);
            err = Failed (QERR_INVALID_PARAMETER_VALUE (name opt)
                    (if list_mode ov = LM_NONE then ''an int64 value''
                     else ''an int64 value or range'')) ov
        in
        if \<not> (list_mode ov = LM_NONE \<or> list_mode ov = LM_IN_PROGRESS) then Abort
        else
          (case strtoll s 0 of (val, endptr, errno) \<Rightarrow>
             if errno = 0 \<and> length endptr < length s \<and> INT64_MIN \<le>s val \<and> val \<le>s INT64_MAX then
               if endptr = [] then store_processed val ov nm
               else if hd endptr = CHR ''-'' \<and> list_mode ov = LM_IN_PROGRESS then
                 (let s2 = tl endptr in
                  case strtoll s2 errno of (val2, endptr2, errno2) \<Rightarrow>
                    if errno2 = 0 \<and> length endptr2 < length s2 \<and> endptr2 = [] \<and>
                       INT64_MIN \<le>s val2 \<and> val2 \<le>s INT64_MAX \<and> val \<le>s val2
                    then
                      (case signed_interval_fits RANGE_MAX val val2 of
                         None \<Rightarrow> Undefined
                       | Some True \<Rightarrow>
                           Done val (ov\<lparr>range_next := val, range_limit := val2,
                                        list_mode := LM_SIGNED_INTERVAL\<rparr>)
                       | Some False \<Rightarrow> err)
                    else err)
               else err
             else err)))"

definition opts_type_uint64 :: "64 word \<Rightarrow> OptsVisitor \<Rightarrow> string \<Rightarrow> 64 word outcome" where
  "opts_type_uint64 RANGE_MAX ov nm =
     (if list_mode ov = LM_UNSIGNED_INTERVAL then Done (range_next ov) ov
      else with_scalar ov nm (\<lambda>opt.
        let err = Failed (QERR_INVALID_PARAMETER_VALUE (name opt)
                    (if list_mode ov = LM_NONE then ''a uint64 value''
                     else ''a uint64 value or range'')) ov
        in
        if \<not> (list_mode ov = LM_NONE \<or> list_mode ov = LM_IN_PROGRESS) then Abort
        else
          (case parse_uint (str opt) of (r, val, endptr) \<Rightarrow>
             if r = 0 \<and> val \<le> UINT64_MAX then
               if endptr = [] then store_processed val ov nm
               else if hd endptr = CHR ''-'' \<and> list_mode ov = LM_IN_PROGRESS then
                 (case parse_uint_full (Some (tl endptr)) of (r2, val2) \<Rightarrow>
                    if r2 = 0 \<and> val2 \<le> UINT64_MAX \<and> val \<le> val2 \<and> val2 - val < RANGE_MAX
                    then Done val (ov\<lparr>range_next := val, range_limit := val2,
                                      list_mode := LM_UNSIGNED_INTERVAL\<rparr>)
                    else err)
               else err
             else err)))"

text \<open>\<^verbatim>\<open>strtosz_suffix\<close> (util/cutils.c) is not in the source file and goes through
  floating point; it is the parameter \<open>strtosz\<close>, from the string to the \<^verbatim>\<open>int64_t\<close>
  result and the end pointer.\<close>

definition opts_type_size ::
  "(string \<Rightarrow> 64 word \<times> string) \<Rightarrow> OptsVisitor \<Rightarrow> string \<Rightarrow> 64 word outcome" where
  "opts_type_size strtosz ov nm =
     with_scalar ov nm (\<lambda>opt.
       case strtosz (case str opt of Some s \<Rightarrow> s | None \<Rightarrow> []) of (val, endptr) \<Rightarrow>
         if val <s 0 \<or> endptr \<noteq> []
         then Failed (QERR_INVALID_PARAMETER_VALUE (name opt)
                ''a size value representible as a non-negative int64'') ov
         else store_processed val ov nm)"

text \<open>\<^verbatim>\<open>lookup_distinct\<close> is called with a null \<^verbatim>\<open>errp\<close> here: no error is set.\<close>

definition opts_start_optional :: "OptsVisitor \<Rightarrow> string \<Rightarrow> bool outcome" where
  "opts_start_optional ov nm =
     (if list_mode ov \<noteq> LM_NONE then Abort
      else
        (case lookup_distinct ov nm of
           None \<Rightarrow> Undefined
         | Some (list, _) \<Rightarrow> Done (list \<noteq> NULL) ov))"

text \<open>\<^verbatim>\<open>g_malloc0\<close> zeroes every field.\<close>

definition opts_visitor_new :: "QemuOpts \<Rightarrow> OptsVisitor" where
  "opts_visitor_new opts =
     \<lparr>opts_root = opts, depth = 0, unprocessed_opts = None, list_mode = LM_NONE,
      repeated_opts = NULL, range_next = 0, range_limit = 0, fake_id_opt = None\<rparr>"

subsection \<open>The visitor's callback table\<close>

text \<open>The callbacks that \<^verbatim>\<open>opts_visitor_new\<close> installs (\<^verbatim>\<open>input_type_enum\<close> is not in the
  source file), as one function of the call made.\<close>

datatype Visit =
    Start_struct
  | End_struct
  | Start_list string
  | Next_list
  | End_list
  | Type_int string
  | Type_uint64 string
  | Type_size string
  | Type_bool string
  | Type_str string
  | Start_optional string

datatype Value = V_unit | V_bool bool | V_int "64 word" | V_str string

definition visit ::
  "64 word \<Rightarrow> (string \<Rightarrow> 64 word \<times> string) \<Rightarrow> Visit \<Rightarrow> OptsVisitor \<Rightarrow> Value outcome" where
  "visit RANGE_MAX strtosz c ov =
     (case c of
        Start_struct \<Rightarrow> map_outcome (\<lambda>_. V_unit) (opts_start_struct ov)
      | End_struct \<Rightarrow> map_outcome (\<lambda>_. V_unit) (opts_end_struct ov)
      | Start_list nm \<Rightarrow> map_outcome (\<lambda>_. V_unit) (opts_start_list ov nm)
      | Next_list \<Rightarrow> map_outcome V_bool (opts_next_list ov)
      | End_list \<Rightarrow> map_outcome (\<lambda>_. V_unit) (opts_end_list ov)
      | Type_int nm \<Rightarrow> map_outcome V_int (opts_type_int RANGE_MAX ov nm)
      | Type_uint64 nm \<Rightarrow> map_outcome V_int (opts_type_uint64 RANGE_MAX ov nm)
      | Type_size nm \<Rightarrow> map_outcome V_int (opts_type_size strtosz ov nm)
      | Type_bool nm \<Rightarrow> map_outcome V_bool (opts_type_bool ov nm)
      | Type_str nm \<Rightarrow> map_outcome V_str (opts_type_str ov nm)
      | Start_optional nm \<Rightarrow> map_outcome V_bool (opts_start_optional ov nm))"

text \<open>The invariant stated at the field \<^verbatim>\<open>unprocessed_opts\<close>: every queue in the table is
  non-empty and holds options of the name it is stored under; a name has one queue.\<close>

definition table_inv :: "GHashTable \<Rightarrow> bool" where
  "table_inv t \<longleftrightarrow>
     distinct (map fst t) \<and> list_all (\<lambda>(k, q). q \<noteq> [] \<and> list_all (\<lambda>opt. name opt = k) q) t"

definition index_inv :: "OptsVisitor \<Rightarrow> bool" where
  "index_inv ov = (case unprocessed_opts ov of None \<Rightarrow> True | Some t \<Rightarrow> table_inv t)"

text \<open>What a scalar decoder for the name \<open>nm\<close> may do to the index: nothing, or remove
  \<open>nm\<close>. It leaves the list pointer and the depth alone.\<close>

definition index_step :: "string \<Rightarrow> OptsVisitor \<Rightarrow> OptsVisitor \<Rightarrow> bool" where
  "index_step nm ov ov' \<longleftrightarrow>
     repeated_opts ov' = repeated_opts ov \<and> depth ov' = depth ov \<and>
     (unprocessed_opts ov' = unprocessed_opts ov \<or>
      (case unprocessed_opts ov of
         None \<Rightarrow> False
       | Some t \<Rightarrow> unprocessed_opts ov' = Some (g_hash_table_remove t nm)))"

subsection \<open>Sequences of calls\<close>

text \<open>The visitor after a caller's sequence of calls, each made on the visitor the
  previous one left, whether or not it set an error; \<open>None\<close> when a call aborts or meets
  undefined behaviour.\<close>

fun visits ::
  "64 word \<Rightarrow> (string \<Rightarrow> 64 word \<times> string) \<Rightarrow> Visit list \<Rightarrow> OptsVisitor \<Rightarrow> OptsVisitor option"
  where
  "visits RANGE_MAX strtosz [] ov = Some ov"
| "visits RANGE_MAX strtosz (c # cs) ov =
     (case visit RANGE_MAX strtosz c ov of
        Return e r ov' \<Rightarrow> visits RANGE_MAX strtosz cs ov'
      | _ \<Rightarrow> None)"

text \<open>The struct depth after a sequence of calls made at depth \<open>d\<close>; \<open>None\<close> when the
  sequence closes the struct that was open at depth 1 or nests \<^verbatim>\<open>UINT_MAX\<close> deep.\<close>

fun struct_depth :: "nat \<Rightarrow> Visit list \<Rightarrow> nat option" where
  "struct_depth d [] = Some d"
| "struct_depth d (Start_struct # cs) =
     (if Suc d < 2 ^ 32 then struct_depth (Suc d) cs else None)"
| "struct_depth d (End_struct # cs) = (if 1 < d then struct_depth (d - 1) cs else None)"
| "struct_depth d (c # cs) = struct_depth d cs"

text \<open>The calls that decode the name \<open>k\<close> or open a list of it.\<close>

definition decodes :: "string \<Rightarrow> Visit \<Rightarrow> bool" where
  "decodes k c \<longleftrightarrow>
     c \<in> set [Start_list k, Type_int k, Type_uint64 k, Type_size k, Type_bool k, Type_str k]"

subsection \<open>The integer decoder in the spec's words\<close>

text \<open>The spec words one integer decoder (section 4.4, \<^verbatim>\<open>decodeInt64\<close>) and has
  \<^verbatim>\<open>decodeUint64\<close> mirror it. What depends on signedness is a parameter here: the
  interval state, the parser of the value (the number read and the rest of the string,
  or nothing when the value does not start with a number), the parser of the upper bound
  (which is to be read whole), the test of the two bounds, and the two descriptions of
  what was expected. In the interval state the decoder returns the counter. Otherwise it
  looks the occurrence up; a value read whole is returned and marked consumed; a value
  that stops at a dash is, in a list, an interval if the upper bound parses and the
  bounds pass the test, and then the decoder enters the interval state and returns the
  lower bound without consuming anything; anything else fails.\<close>

definition spec_decode_integer ::
  "ListMode \<Rightarrow> (string option \<Rightarrow> (64 word \<times> string) option) \<Rightarrow> (string \<Rightarrow> 64 word option) \<Rightarrow>
   (64 word \<Rightarrow> 64 word \<Rightarrow> bool) \<Rightarrow> string \<Rightarrow> string \<Rightarrow> OptsVisitor \<Rightarrow> string \<Rightarrow> 64 word outcome"
  where
  "spec_decode_integer interval number bound fits expected expected_in_list ov nm =
     (if list_mode ov = interval then Done (range_next ov) ov
      else with_scalar ov nm (\<lambda>opt.
        let err = Failed (QERR_INVALID_PARAMETER_VALUE (name opt)
                    (if list_mode ov = LM_NONE then expected else expected_in_list)) ov
        in
        case number (str opt) of
          None \<Rightarrow> err
        | Some (lower, rest) \<Rightarrow>
            if rest = [] then store_processed lower ov nm
            else if hd rest = CHR ''-'' \<and> list_mode ov = LM_IN_PROGRESS then
              (case bound (tl rest) of
                 None \<Rightarrow> err
               | Some upper \<Rightarrow>
                   if fits lower upper
                   then Done lower (ov\<lparr>range_next := lower, range_limit := upper,
                                       list_mode := interval\<rparr>)
                   else err)
            else err))"

text \<open>The signed parameters: \<^verbatim>\<open>strtoll\<close> without a range error and with at least one
  character read, an absent value standing for the empty string; the bounds compared as
  signed numbers, their distance strictly below the cap.\<close>

definition signed_number :: "string option \<Rightarrow> (64 word \<times> string) option" where
  "signed_number v =
     (let s = (case v of Some s \<Rightarrow> s | None \<Rightarrow> []) in
      case strtoll s 0 of (val, endptr, errno) \<Rightarrow>
        if errno = 0 \<and> length endptr < length s then Some (val, endptr) else None)"

definition signed_bound :: "string \<Rightarrow> 64 word option" where
  "signed_bound s =
     (case strtoll s 0 of (val, endptr, errno) \<Rightarrow>
        if errno = 0 \<and> length endptr < length s \<and> endptr = [] then Some val else None)"

definition signed_bounds_fit :: "64 word \<Rightarrow> 64 word \<Rightarrow> 64 word \<Rightarrow> bool" where
  "signed_bounds_fit cap lower upper \<longleftrightarrow>
     sint lower \<le> sint upper \<and> sint upper - sint lower < sint cap"

text \<open>The unsigned parameters: \<^verbatim>\<open>parse_uint\<close> and \<^verbatim>\<open>parse_uint_full\<close> returning 0; the
  bounds compared as unsigned numbers, their distance strictly below the cap.\<close>

definition unsigned_number :: "string option \<Rightarrow> (64 word \<times> string) option" where
  "unsigned_number v =
     (case parse_uint v of (r, val, endptr) \<Rightarrow> if r = 0 then Some (val, endptr) else None)"

definition unsigned_bound :: "string \<Rightarrow> 64 word option" where
  "unsigned_bound s =
     (case parse_uint_full (Some s) of (r, val) \<Rightarrow> if r = 0 then Some val else None)"

definition unsigned_bounds_fit :: "64 word \<Rightarrow> 64 word \<Rightarrow> 64 word \<Rightarrow> bool" where
  "unsigned_bounds_fit cap lower upper \<longleftrightarrow>
     uint lower \<le> uint upper \<and> uint upper - uint lower < uint cap"


section \<open>Properties\<close>

subsection \<open>What a failed or successful scalar lookup leaves behind\<close>

lemma lookup_scalar_state: "lookup_scalar ov nm = Return e r ov' \<Longrightarrow> ov' = ov"
  by (auto simp: lookup_scalar_def split: if_splits option.splits prod.splits)

lemma processed_no_error: "processed ov nm = Return e r ov' \<Longrightarrow> e = None"
  by (auto simp: processed_def split: if_splits option.splits)

lemma store_processed_no_error: "store_processed v ov nm = Return e r ov' \<Longrightarrow> e = None"
  by (auto simp: store_processed_def split: outcome.splits dest: processed_no_error)

lemma with_scalar_failure:
  assumes "with_scalar ov nm f = Return (Some e) r ov'"
    and "\<And>opt. f opt = Return (Some e) r ov' \<Longrightarrow> ov' = ov \<and> r = None"
  shows "ov' = ov \<and> r = None"
  using assms
  by (auto simp: with_scalar_def split: outcome.splits option.splits dest: lookup_scalar_state)

lemma bool_failure:
  assumes "opts_type_bool ov nm = Return (Some e) r ov'"
  shows "ov' = ov \<and> r = None"
  using assms unfolding opts_type_bool_def
  by (rule with_scalar_failure) (auto split: option.splits if_splits dest: store_processed_no_error)

lemma int_failure:
  assumes "opts_type_int RANGE_MAX ov nm = Return (Some e) r ov'"
  shows "ov' = ov \<and> r = None"
proof (cases "list_mode ov = LM_SIGNED_INTERVAL")
  case True
  with assms show ?thesis by (simp add: opts_type_int_def)
next
  case False
  with assms show ?thesis unfolding opts_type_int_def
    by (simp only: if_False, elim with_scalar_failure)
       (auto simp: Let_def split: option.splits if_splits prod.splits bool.splits
             dest: store_processed_no_error)
qed

lemma uint64_failure:
  assumes "opts_type_uint64 RANGE_MAX ov nm = Return (Some e) r ov'"
  shows "ov' = ov \<and> r = None"
proof (cases "list_mode ov = LM_UNSIGNED_INTERVAL")
  case True
  with assms show ?thesis by (simp add: opts_type_uint64_def)
next
  case False
  with assms show ?thesis unfolding opts_type_uint64_def
    by (simp only: if_False, elim with_scalar_failure)
       (auto simp: Let_def split: option.splits if_splits prod.splits bool.splits
             dest: store_processed_no_error)
qed

lemma size_failure:
  assumes "opts_type_size strtosz ov nm = Return (Some e) r ov'"
  shows "ov' = ov \<and> r = None"
  using assms unfolding opts_type_size_def
  by (rule with_scalar_failure)
     (auto simp: Let_def split: option.splits if_splits prod.splits dest: store_processed_no_error)

lemma lookup_scalar_found_table:
  "lookup_scalar ov nm = Return e (Some (Some opt)) ov' \<Longrightarrow>
     (list_mode ov = LM_NONE \<or> list_mode ov = LM_IN_PROGRESS) \<and> unprocessed_opts ov \<noteq> None"
  by (auto simp: lookup_scalar_def lookup_distinct_def deref_def
           split: if_splits option.splits prod.splits GQueue_ptr.splits)

text \<open>Once the lookup has found an option, \<^verbatim>\<open>processed\<close> cannot fail: outside a list it
  removes the name, inside one it does nothing.\<close>

lemma store_processed_found:
  assumes "lookup_scalar ov nm = Return e (Some (Some opt)) ov'"
  shows "store_processed v ov nm =
           Done v (if list_mode ov = LM_NONE
                   then ov\<lparr>unprocessed_opts :=
                          map_option (\<lambda>t. g_hash_table_remove t nm) (unprocessed_opts ov)\<rparr>
                   else ov)"
  using lookup_scalar_found_table [OF assms]
  by (auto simp: store_processed_def processed_def)

subsection \<open>Scalar lookup outside a list\<close>

lemma lookup_scalar_last:
  assumes "list_mode ov = LM_NONE" and "unprocessed_opts ov = Some t"
    and "g_hash_table_lookup t nm = Some q" and "q \<noteq> []"
  shows "lookup_scalar ov nm = Done (Some (last q)) ov"
  using assms
  by (simp add: lookup_scalar_def lookup_distinct_def deref_def g_queue_peek_tail_def)

lemma with_scalar_last:
  assumes "list_mode ov = LM_NONE" and "unprocessed_opts ov = Some t"
    and "g_hash_table_lookup t nm = Some q" and "q \<noteq> []"
  shows "with_scalar ov nm f = f (last q)"
  by (simp add: with_scalar_def lookup_scalar_last [OF assms])

lemma lookup_scalar_missing:
  assumes "list_mode ov = LM_NONE" and "unprocessed_opts ov = Some t"
    and "g_hash_table_lookup t nm = None"
  shows "lookup_scalar ov nm = Return (Some (QERR_MISSING_PARAMETER nm)) (Some None) ov"
  using assms
  by (simp add: lookup_scalar_def lookup_distinct_def deref_def)

lemma with_scalar_missing:
  assumes "list_mode ov = LM_NONE" and "unprocessed_opts ov = Some t"
    and "g_hash_table_lookup t nm = None"
  shows "with_scalar ov nm f = Failed (QERR_MISSING_PARAMETER nm) ov"
  by (simp add: with_scalar_def lookup_scalar_missing [OF assms])

lemma store_processed_none:
  assumes "list_mode ov = LM_NONE" and "unprocessed_opts ov = Some t"
  shows "store_processed v ov nm = Done v (ov\<lparr>unprocessed_opts := Some (g_hash_table_remove t nm)\<rparr>)"
  using assms by (simp add: store_processed_def processed_def)

lemma lookup_remove_same: "g_hash_table_lookup (g_hash_table_remove t k) k = None"
  by (induction t) (auto simp: g_hash_table_lookup_def g_hash_table_remove_def)

lemma lookup_remove_other:
  "k' \<noteq> k \<Longrightarrow> g_hash_table_lookup (g_hash_table_remove t k) k' = g_hash_table_lookup t k'"
  by (induction t) (auto simp: g_hash_table_lookup_def g_hash_table_remove_def)

text \<open>The rules that evaluate the parsers on a given string.\<close>

lemmas parse_simps =
  strtoll_def strtoull_def scan_number_def isspace_def digit_of_def is_digit_in_def
  parse_uint_def parse_uint_full_def INT64_MIN_def INT64_MAX_def UINT64_MAX_def
  ERANGE_def EINVAL_def

lemma strtoll_3_7: "strtoll ''3-7'' 0 = (3, ''-7'', 0)"
  by (simp add: parse_simps)

lemma with_scalar_found:
  "lookup_scalar ov nm = Done (Some opt) ov \<Longrightarrow> with_scalar ov nm f = f opt"
  by (simp add: with_scalar_def)

subsection \<open>The index: tables, queues and the invariant\<close>

lemma set_queue_keys: "map fst (set_queue t k q) = map fst t"
  by (induction t) auto

lemma lookup_set_queue:
  "g_hash_table_lookup (set_queue t k q) k' =
     (if k' = k \<and> g_hash_table_lookup t k \<noteq> None then Some q else g_hash_table_lookup t k')"
  by (induction t) (auto simp: g_hash_table_lookup_def)

lemma table_inv_set_queue:
  assumes "table_inv t" and "q \<noteq> []" and "list_all (\<lambda>opt. name opt = k) q"
  shows "table_inv (set_queue t k q)"
  using assms unfolding table_inv_def set_queue_keys
  by (induction t) auto

lemma remove_set_queue: "g_hash_table_remove (set_queue t k q) k = g_hash_table_remove t k"
  by (induction t) (auto simp: g_hash_table_remove_def)

lemma table_inv_remove: "table_inv t \<Longrightarrow> table_inv (g_hash_table_remove t k)"
  unfolding table_inv_def g_hash_table_remove_def
  by (induction t) (auto simp: distinct_map_filter)

lemma table_inv_lookup:
  assumes "table_inv t" and "g_hash_table_lookup t k = Some q"
  shows "q \<noteq> [] \<and> list_all (\<lambda>opt. name opt = k) q"
proof -
  from assms(2) have "(k, q) \<in> set t"
    by (simp add: g_hash_table_lookup_def map_of_SomeD)
  with assms(1) show ?thesis
    by (auto simp: table_inv_def list_all_iff)
qed

lemma table_inv_insert_new:
  assumes "table_inv t" and "g_hash_table_lookup t k = None" and "q \<noteq> []"
    and "list_all (\<lambda>opt. name opt = k) q"
  shows "table_inv (t @ [(k, q)])"
  using assms
  by (auto simp: table_inv_def g_hash_table_lookup_def map_of_eq_None_iff)

lemma set_queue_fresh:
  "g_hash_table_lookup t k = None \<Longrightarrow> set_queue (t @ [(k, q)]) k q' = t @ [(k, q')]"
  by (induction t) (auto simp: g_hash_table_lookup_def split: if_splits)

lemma opts_visitor_insert_new:
  "g_hash_table_lookup t (name opt) = None \<Longrightarrow> opts_visitor_insert t opt = t @ [(name opt, [opt])]"
  by (simp add: opts_visitor_insert_def g_hash_table_insert_def set_queue_fresh)
     (simp add: g_hash_table_lookup_def)

lemma table_inv_opts_visitor_insert:
  assumes "table_inv t"
  shows "table_inv (opts_visitor_insert t opt)"
proof (cases "g_hash_table_lookup t (name opt)")
  case None
  with assms show ?thesis
    by (simp add: opts_visitor_insert_new table_inv_insert_new)
next
  case (Some q)
  with table_inv_lookup [OF assms Some] assms show ?thesis
    by (simp add: opts_visitor_insert_def table_inv_set_queue)
qed

lemma table_inv_insert_all:
  "table_inv t \<Longrightarrow> insert_all t opts = Some t' \<Longrightarrow> table_inv t'"
proof (induction opts arbitrary: t)
  case Nil
  then show ?case by simp
next
  case (Cons opt opts)
  from Cons.prems(2) have "insert_all (opts_visitor_insert t opt) opts = Some t'"
    by (simp split: if_splits)
  with Cons.IH [OF table_inv_opts_visitor_insert [OF Cons.prems(1)]] show ?case .
qed

lemma table_inv_empty: "table_inv []"
  by (simp add: table_inv_def)

lemma map_outcome_Return:
  "map_outcome f x = Return e r ov' \<Longrightarrow> \<exists>r0. x = Return e r0 ov'"
  by (cases x) auto

lemma index_inv_same:
  "unprocessed_opts ov' = unprocessed_opts ov \<Longrightarrow> index_inv ov \<Longrightarrow> index_inv ov'"
  by (simp add: index_inv_def)

lemma index_inv_step: "index_step nm ov ov' \<Longrightarrow> index_inv ov \<Longrightarrow> index_inv ov'"
  by (auto simp: index_step_def index_inv_def table_inv_remove split: option.splits)

lemma index_step_refl [simp]: "index_step nm ov ov"
  by (simp add: index_step_def)

lemma index_step_range [simp]:
  "index_step nm ov (ov\<lparr>range_next := a, range_limit := b, list_mode := m\<rparr>)"
  by (simp add: index_step_def)

lemma step_store_processed:
  "store_processed v ov nm = Return e r ov' \<Longrightarrow> index_step nm ov ov'"
  by (auto simp: store_processed_def processed_def index_step_def
           split: outcome.splits if_splits option.splits)

lemma step_with_scalar:
  assumes "with_scalar ov nm f = Return e r ov'"
    and "\<And>opt. f opt = Return e r ov' \<Longrightarrow> index_step nm ov ov'"
  shows "index_step nm ov ov'"
  using assms
  by (auto simp: with_scalar_def split: outcome.splits option.splits dest: lookup_scalar_state)

lemma step_type_str: "opts_type_str ov nm = Return e r ov' \<Longrightarrow> index_step nm ov ov'"
  unfolding opts_type_str_def
  by (erule step_with_scalar) (auto dest: step_store_processed)

lemma step_type_bool: "opts_type_bool ov nm = Return e r ov' \<Longrightarrow> index_step nm ov ov'"
  unfolding opts_type_bool_def
  by (erule step_with_scalar) (auto split: option.splits if_splits dest: step_store_processed)

lemma step_type_size: "opts_type_size strtosz ov nm = Return e r ov' \<Longrightarrow> index_step nm ov ov'"
  unfolding opts_type_size_def
  by (erule step_with_scalar) (auto split: prod.splits if_splits dest: step_store_processed)

lemma step_type_int:
  assumes "opts_type_int RANGE_MAX ov nm = Return e r ov'"
  shows "index_step nm ov ov'"
proof (cases "list_mode ov = LM_SIGNED_INTERVAL")
  case True
  with assms show ?thesis by (auto simp: opts_type_int_def)
next
  case False
  with assms show ?thesis unfolding opts_type_int_def
    by (simp only: if_False, elim step_with_scalar)
       (auto simp: Let_def split: option.splits if_splits prod.splits bool.splits
             dest: step_store_processed)
qed

lemma step_type_uint64:
  assumes "opts_type_uint64 RANGE_MAX ov nm = Return e r ov'"
  shows "index_step nm ov ov'"
proof (cases "list_mode ov = LM_UNSIGNED_INTERVAL")
  case True
  with assms show ?thesis by (auto simp: opts_type_uint64_def)
next
  case False
  with assms show ?thesis unfolding opts_type_uint64_def
    by (simp only: if_False, elim step_with_scalar)
       (auto simp: Let_def split: option.splits if_splits prod.splits bool.splits
             dest: step_store_processed)
qed

lemma inv_start_struct:
  assumes "opts_start_struct ov = Return e r ov'" and "index_inv ov \<or> depth ov = 0"
  shows "index_inv ov'"
proof (cases "0 < depth ov")
  case True
  then have "depth ov \<noteq> 0" by auto
  with True assms show ?thesis
    by (auto simp: opts_start_struct_def Let_def index_inv_def)
next
  case False
  with assms(1) obtain t where t: "insert_all [] (head (opts_root ov)) = Some t"
    and u: "unprocessed_opts ov' = Some t \<or>
            (\<exists>i. unprocessed_opts ov' = Some (opts_visitor_insert t \<lparr>name = ''id'', str = Some i\<rparr>))"
    by (fastforce simp: opts_start_struct_def Let_def split: option.splits)
  from table_inv_insert_all [OF table_inv_empty t] have "table_inv t" .
  with u show ?thesis
    by (auto simp: index_inv_def table_inv_opts_visitor_insert)
qed

lemma inv_end_struct:
  assumes "opts_end_struct ov = Return e r ov'" and "index_inv ov"
  shows "index_inv ov'"
  using assms
  by (auto simp: opts_end_struct_def Let_def index_inv_def split: if_splits option.splits)

lemma same_start_list:
  "opts_start_list ov nm = Return e r ov' \<Longrightarrow> unprocessed_opts ov' = unprocessed_opts ov"
  by (auto simp: opts_start_list_def Let_def split: if_splits option.splits prod.splits)

lemma same_end_list:
  "opts_end_list ov = Return e r ov' \<Longrightarrow> unprocessed_opts ov' = unprocessed_opts ov"
  by (auto simp: opts_end_list_def split: if_splits)

lemma same_start_optional:
  "opts_start_optional ov nm = Return e r ov' \<Longrightarrow> unprocessed_opts ov' = unprocessed_opts ov"
  by (auto simp: opts_start_optional_def split: if_splits option.splits prod.splits)

lemma inv_pop_option:
  assumes "pop_option ov = Return e r ov'" and "index_inv ov"
  shows "index_inv ov'"
proof -
  from assms(1) obtain k t opt rest where k: "repeated_opts ov = Ptr k"
    and t: "unprocessed_opts ov = Some t" and q: "g_hash_table_lookup t k = Some (opt # rest)"
    and r: "ov' = (if rest = []
                   then ov\<lparr>unprocessed_opts := Some (g_hash_table_remove (set_queue t k rest) (name opt))\<rparr>
                   else ov\<lparr>unprocessed_opts := Some (set_queue t k rest)\<rparr>)"
    by (auto simp: pop_option_def Let_def split: GQueue_ptr.splits option.splits list.splits if_splits)
  from assms(2) t have inv: "table_inv t" by (simp add: index_inv_def)
  from table_inv_lookup [OF inv q] have n: "name opt = k"
    and rest: "list_all (\<lambda>opt. name opt = k) rest" by simp_all
  show ?thesis
  proof (cases "rest = []")
    case True
    with r n show ?thesis
      by (simp add: index_inv_def remove_set_queue table_inv_remove [OF inv])
  next
    case False
    with r show ?thesis
      by (simp add: index_inv_def table_inv_set_queue [OF inv False rest])
  qed
qed

lemma inv_next_list:
  assumes "opts_next_list ov = Return e r ov'" and "index_inv ov"
  shows "index_inv ov'"
proof (cases "list_mode ov")
  case LM_NONE
  with assms show ?thesis by (simp add: opts_next_list_def)
next
  case LM_STARTED
  with assms show ?thesis by (auto simp: opts_next_list_def index_inv_def)
next
  case LM_IN_PROGRESS
  with assms show ?thesis by (auto simp: opts_next_list_def dest: inv_pop_option)
next
  case LM_SIGNED_INTERVAL
  have "index_inv (ov\<lparr>list_mode := LM_IN_PROGRESS\<rparr>)"
    using assms(2) by (simp add: index_inv_def)
  with assms LM_SIGNED_INTERVAL show ?thesis
    by (auto simp: opts_next_list_def index_inv_def split: if_splits dest: inv_pop_option)
next
  case LM_UNSIGNED_INTERVAL
  have "index_inv (ov\<lparr>list_mode := LM_IN_PROGRESS\<rparr>)"
    using assms(2) by (simp add: index_inv_def)
  with assms LM_UNSIGNED_INTERVAL show ?thesis
    by (auto simp: opts_next_list_def index_inv_def split: if_splits dest: inv_pop_option)
qed

lemma inv_visit:
  assumes "visit RANGE_MAX strtosz c ov = Return e r ov'" and "index_inv ov"
  shows "index_inv ov'"
proof (cases c)
  case Start_struct
  with assms show ?thesis by (auto simp: visit_def dest!: map_outcome_Return intro: inv_start_struct)
next
  case End_struct
  with assms show ?thesis by (auto simp: visit_def dest!: map_outcome_Return intro: inv_end_struct)
next
  case (Start_list nm)
  with assms show ?thesis
    by (auto simp: visit_def dest!: map_outcome_Return same_start_list intro: index_inv_same)
next
  case Next_list
  with assms show ?thesis by (auto simp: visit_def dest!: map_outcome_Return intro: inv_next_list)
next
  case End_list
  with assms show ?thesis
    by (auto simp: visit_def dest!: map_outcome_Return same_end_list intro: index_inv_same)
next
  case (Type_int nm)
  with assms show ?thesis
    by (auto simp: visit_def dest!: map_outcome_Return step_type_int intro: index_inv_step)
next
  case (Type_uint64 nm)
  with assms show ?thesis
    by (auto simp: visit_def dest!: map_outcome_Return step_type_uint64 intro: index_inv_step)
next
  case (Type_size nm)
  with assms show ?thesis
    by (auto simp: visit_def dest!: map_outcome_Return step_type_size intro: index_inv_step)
next
  case (Type_bool nm)
  with assms show ?thesis
    by (auto simp: visit_def dest!: map_outcome_Return step_type_bool intro: index_inv_step)
next
  case (Type_str nm)
  with assms show ?thesis
    by (auto simp: visit_def dest!: map_outcome_Return step_type_str intro: index_inv_step)
next
  case (Start_optional nm)
  with assms show ?thesis
    by (auto simp: visit_def dest!: map_outcome_Return same_start_optional intro: index_inv_same)
qed

lemma lookup_append_new:
  "g_hash_table_lookup (t @ [(k, q)]) k' =
     (case g_hash_table_lookup t k' of Some q' \<Rightarrow> Some q' | None \<Rightarrow> if k' = k then Some q else None)"
  by (simp add: g_hash_table_lookup_def map_add_def split: option.splits)

lemma lookup_opts_visitor_insert:
  "g_hash_table_lookup (opts_visitor_insert t opt) k =
     (if k = name opt
      then Some ((case g_hash_table_lookup t k of None \<Rightarrow> [] | Some q \<Rightarrow> q) @ [opt])
      else g_hash_table_lookup t k)"
proof (cases "g_hash_table_lookup t (name opt)")
  case None
  then show ?thesis
    by (simp add: opts_visitor_insert_new lookup_append_new split: option.splits)
next
  case (Some q)
  then show ?thesis
    by (simp add: opts_visitor_insert_def lookup_set_queue)
qed

lemma queue_insert_all:
  assumes "insert_all t opts = Some t'"
  shows "(case g_hash_table_lookup t' k of None \<Rightarrow> [] | Some q \<Rightarrow> q) =
         (case g_hash_table_lookup t k of None \<Rightarrow> [] | Some q \<Rightarrow> q) @
           filter (\<lambda>opt. name opt = k) opts"
  using assms
proof (induction opts arbitrary: t)
  case Nil
  then show ?case by simp
next
  case (Cons opt opts)
  from Cons.prems have "insert_all (opts_visitor_insert t opt) opts = Some t'"
    by (simp split: if_splits)
  from Cons.IH [OF this] show ?case
    by (simp add: lookup_opts_visitor_insert)
qed

lemma table_inv_lookup_queue:
  assumes "table_inv t"
  shows "g_hash_table_lookup t k =
           (let q = (case g_hash_table_lookup t k of None \<Rightarrow> [] | Some q \<Rightarrow> q)
            in if q = [] then None else Some q)"
  using table_inv_lookup [OF assms, of k]
  by (cases "g_hash_table_lookup t k") (simp_all add: Let_def)

lemma start_struct_index:
  assumes "depth ov = 0" and "opts_start_struct ov = Return e r ov'"
  shows "\<exists>t. unprocessed_opts ov' = Some t \<and> table_inv t \<and>
           (\<forall>k. g_hash_table_lookup t k =
                  (let q = filter (\<lambda>opt. name opt = k)
                             (head (opts_root ov) @
                              (case opts_id (opts_root ov) of
                                 None \<Rightarrow> []
                               | Some i \<Rightarrow> [\<lparr>name = ''id'', str = Some i\<rparr>]))
                   in if q = [] then None else Some q))"
proof -
  from assms obtain t0 where t0: "insert_all [] (head (opts_root ov)) = Some t0"
    by (auto simp: opts_start_struct_def Let_def split: option.splits)
  have inv0: "table_inv t0" by (rule table_inv_insert_all [OF table_inv_empty t0])
  have q0: "\<And>k. (case g_hash_table_lookup t0 k of None \<Rightarrow> [] | Some q \<Rightarrow> q) =
              filter (\<lambda>opt. name opt = k) (head (opts_root ov))"
    using queue_insert_all [OF t0] by (simp add: g_hash_table_lookup_def)
  show ?thesis
  proof (cases "opts_id (opts_root ov)")
    case None
    with assms t0 have "unprocessed_opts ov' = Some t0"
      by (auto simp: opts_start_struct_def Let_def)
    with inv0 None show ?thesis
      using table_inv_lookup_queue [OF inv0] by (simp add: q0)
  next
    case (Some i)
    let ?fake = "\<lparr>name = ''id'', str = Some i\<rparr>"
    from Some assms t0 have u: "unprocessed_opts ov' = Some (opts_visitor_insert t0 ?fake)"
      by (auto simp: opts_start_struct_def Let_def)
    have inv1: "table_inv (opts_visitor_insert t0 ?fake)"
      by (rule table_inv_opts_visitor_insert [OF inv0])
    have "\<And>k. (case g_hash_table_lookup (opts_visitor_insert t0 ?fake) k of
                  None \<Rightarrow> [] | Some q \<Rightarrow> q) =
              filter (\<lambda>opt. name opt = k) (head (opts_root ov) @ [?fake])"
      using q0 by (auto simp: lookup_opts_visitor_insert)
    with u inv1 Some show ?thesis
      using table_inv_lookup_queue [OF inv1] by simp
  qed
qed

lemma pop_option_returns:
  assumes "index_inv ov" and "deref ov (repeated_opts ov) = Some q"
  shows "\<exists>b ov'. pop_option ov = Done b ov'"
proof -
  from assms(2) obtain k t where k: "repeated_opts ov = Ptr k"
    and t: "unprocessed_opts ov = Some t" and q: "g_hash_table_lookup t k = Some q"
    by (auto simp: deref_def split: GQueue_ptr.splits option.splits)
  from assms(1) t have "table_inv t" by (simp add: index_inv_def)
  from table_inv_lookup [OF this q] obtain opt rest where "q = opt # rest"
    by (cases q) auto
  with k t q show ?thesis
    by (auto simp: pop_option_def Let_def)
qed

lemma next_list_returns:
  assumes "index_inv ov" and "list_mode ov \<noteq> LM_NONE"
    and "deref ov (repeated_opts ov) = Some q"
  shows "\<exists>b ov'. opts_next_list ov = Done b ov'"
proof -
  let ?ov = "ov\<lparr>list_mode := LM_IN_PROGRESS\<rparr>"
  have "index_inv ?ov" and "deref ?ov (repeated_opts ?ov) = Some q"
    using assms(1,3) by (auto simp: index_inv_def deref_def split: GQueue_ptr.splits)
  from pop_option_returns [OF this] pop_option_returns [OF assms(1,3)] assms(2)
  show ?thesis
    by (cases "list_mode ov") (auto simp: opts_next_list_def)
qed

lemma inv_visits:
  "index_inv ov \<Longrightarrow> visits RANGE_MAX strtosz cs ov = Some ov' \<Longrightarrow> index_inv ov'"
proof (induction cs arbitrary: ov)
  case Nil
  then show ?case by simp
next
  case (Cons c cs)
  from Cons.prems(2) obtain e r ov1 where v: "visit RANGE_MAX strtosz c ov = Return e r ov1"
    and vs: "visits RANGE_MAX strtosz cs ov1 = Some ov'"
    by (auto split: outcome.splits)
  from Cons.IH [OF inv_visit [OF v Cons.prems(1)] vs] show ?case .
qed

lemma inv_new: "index_inv (opts_visitor_new opts)"
  by (simp add: index_inv_def opts_visitor_new_def)


subsection \<open>A name stays in the index until a call decodes it\<close>

lemma word32_pos: "(d :: 32 word) \<noteq> 0 \<Longrightarrow> 0 < d"
  by (simp add: word_neq_0_conv)

lemma kept_index_step:
  assumes "index_step nm ov ov'" and "nm \<noteq> k" and "unprocessed_opts ov = Some t"
    and "g_hash_table_lookup t k = Some q" and "repeated_opts ov \<noteq> Ptr k"
  shows "\<exists>t'. unprocessed_opts ov' = Some t' \<and> g_hash_table_lookup t' k = Some q \<and>
              repeated_opts ov' \<noteq> Ptr k"
  using assms by (auto simp: index_step_def lookup_remove_other)

lemma kept_pop_option:
  assumes "pop_option ov = Return e r ov'" and "index_inv ov" and "unprocessed_opts ov = Some t"
    and "g_hash_table_lookup t k = Some q" and "repeated_opts ov \<noteq> Ptr k"
  shows "\<exists>t'. unprocessed_opts ov' = Some t' \<and> g_hash_table_lookup t' k = Some q \<and>
              repeated_opts ov' \<noteq> Ptr k"
proof -
  from assms(1,3) obtain k' opt rest where k': "repeated_opts ov = Ptr k'"
    and q': "g_hash_table_lookup t k' = Some (opt # rest)"
    and r: "ov' = (if rest = []
                   then ov\<lparr>unprocessed_opts := Some (g_hash_table_remove (set_queue t k' rest) (name opt))\<rparr>
                   else ov\<lparr>unprocessed_opts := Some (set_queue t k' rest)\<rparr>)"
    by (auto simp: pop_option_def Let_def split: GQueue_ptr.splits option.splits list.splits if_splits)
  from assms(2,3) have inv: "table_inv t" by (simp add: index_inv_def)
  from table_inv_lookup [OF inv q'] have n: "name opt = k'" by simp
  from k' assms(5) have ne: "k \<noteq> k'" by auto
  with r n assms(4,5) show ?thesis
    by (auto simp: remove_set_queue lookup_remove_other lookup_set_queue)
qed

lemma kept_next_list:
  assumes "opts_next_list ov = Return e r ov'" and "index_inv ov" and "unprocessed_opts ov = Some t"
    and "g_hash_table_lookup t k = Some q" and "repeated_opts ov \<noteq> Ptr k"
  shows "\<exists>t'. unprocessed_opts ov' = Some t' \<and> g_hash_table_lookup t' k = Some q \<and>
              repeated_opts ov' \<noteq> Ptr k"
proof -
  let ?ov = "ov\<lparr>list_mode := LM_IN_PROGRESS\<rparr>"
  have m: "index_inv ?ov" "unprocessed_opts ?ov = Some t" "repeated_opts ?ov \<noteq> Ptr k"
    using assms(2,3,5) by (simp_all add: index_inv_def)
  note a = kept_pop_option [OF _ assms(2,3,4,5)]
  note b = kept_pop_option [OF _ m(1,2) assms(4) m(3)]
  from assms(1) consider
      (upd) "unprocessed_opts ov' = unprocessed_opts ov" "repeated_opts ov' = repeated_opts ov"
    | (pop) "pop_option ov = Return e r ov'"
    | (pop') "pop_option ?ov = Return e r ov'"
    by (auto simp: opts_next_list_def split: ListMode.splits if_splits)
  then show ?thesis
  proof cases
    case upd
    with assms(3,4,5) show ?thesis by simp
  next
    case pop
    then show ?thesis by (rule a)
  next
    case pop'
    then show ?thesis by (rule b)
  qed
qed

lemma name_kept:
  assumes "index_inv ov" and "unprocessed_opts ov = Some t"
    and "g_hash_table_lookup t k = Some q" and "repeated_opts ov \<noteq> Ptr k"
    and "c \<notin> {Start_list k, Type_int k, Type_uint64 k, Type_size k, Type_bool k, Type_str k}"
    and "c = End_struct \<longrightarrow> depth ov \<noteq> 1" and "c = Start_struct \<longrightarrow> depth ov \<noteq> 0"
    and "visit RANGE_MAX strtosz c ov = Return e r ov'"
  shows "\<exists>t'. unprocessed_opts ov' = Some t' \<and> g_hash_table_lookup t' k = Some q \<and>
              repeated_opts ov' \<noteq> Ptr k"
proof (cases c)
  case Start_struct
  with assms(7) have "0 < depth ov" by (simp add: word32_pos)
  with Start_struct assms(2,3,4,8) show ?thesis
    by (auto simp: visit_def opts_start_struct_def Let_def dest!: map_outcome_Return)
next
  case End_struct
  with assms(6) have "0 < depth ov - 1" by (simp add: word32_pos)
  with End_struct assms(2,3,4,8) show ?thesis
    by (auto simp: visit_def opts_end_struct_def Let_def dest!: map_outcome_Return)
next
  case (Start_list nm)
  with assms(5) have "nm \<noteq> k" by auto
  with Start_list assms(2,3,4,8) show ?thesis
    by (auto simp: visit_def opts_start_list_def lookup_distinct_def Let_def
             split: if_splits option.splits dest!: map_outcome_Return)
next
  case Next_list
  with assms(8) obtain r0 where "opts_next_list ov = Return e r0 ov'"
    by (auto simp: visit_def dest!: map_outcome_Return)
  from kept_next_list [OF this assms(1,2,3,4)] show ?thesis .
next
  case End_list
  with assms(2,3,4,8) show ?thesis
    by (auto simp: visit_def opts_end_list_def split: if_splits dest!: map_outcome_Return)
next
  case (Type_int nm)
  with assms(5) have ne: "nm \<noteq> k" by auto
  from Type_int assms(8) obtain r0 where "opts_type_int RANGE_MAX ov nm = Return e r0 ov'"
    by (auto simp: visit_def dest!: map_outcome_Return)
  from kept_index_step [OF step_type_int [OF this] ne assms(2,3,4)] show ?thesis .
next
  case (Type_uint64 nm)
  with assms(5) have ne: "nm \<noteq> k" by auto
  from Type_uint64 assms(8) obtain r0 where "opts_type_uint64 RANGE_MAX ov nm = Return e r0 ov'"
    by (auto simp: visit_def dest!: map_outcome_Return)
  from kept_index_step [OF step_type_uint64 [OF this] ne assms(2,3,4)] show ?thesis .
next
  case (Type_size nm)
  with assms(5) have ne: "nm \<noteq> k" by auto
  from Type_size assms(8) obtain r0 where "opts_type_size strtosz ov nm = Return e r0 ov'"
    by (auto simp: visit_def dest!: map_outcome_Return)
  from kept_index_step [OF step_type_size [OF this] ne assms(2,3,4)] show ?thesis .
next
  case (Type_bool nm)
  with assms(5) have ne: "nm \<noteq> k" by auto
  from Type_bool assms(8) obtain r0 where "opts_type_bool ov nm = Return e r0 ov'"
    by (auto simp: visit_def dest!: map_outcome_Return)
  from kept_index_step [OF step_type_bool [OF this] ne assms(2,3,4)] show ?thesis .
next
  case (Type_str nm)
  with assms(5) have ne: "nm \<noteq> k" by auto
  from Type_str assms(8) obtain r0 where "opts_type_str ov nm = Return e r0 ov'"
    by (auto simp: visit_def dest!: map_outcome_Return)
  from kept_index_step [OF step_type_str [OF this] ne assms(2,3,4)] show ?thesis .
next
  case (Start_optional nm)
  with assms(2,3,4,8) show ?thesis
    by (auto simp: visit_def opts_start_optional_def split: if_splits option.splits prod.splits
             dest!: map_outcome_Return)
qed

lemma index_inv_head:
  assumes "index_inv ov" and "unprocessed_opts ov = Some ((k, q) # t)"
  shows "\<exists>first. g_queue_peek_head q = Some first \<and> name first = k"
  using assms by (cases q) (auto simp: index_inv_def table_inv_def g_queue_peek_head_def)

lemma depth_pop_option: "pop_option ov = Return e r ov' \<Longrightarrow> depth ov' = depth ov"
  by (auto simp: pop_option_def Let_def
           split: GQueue_ptr.splits option.splits list.splits if_splits)

lemma depth_next_list: "opts_next_list ov = Return e r ov' \<Longrightarrow> depth ov' = depth ov"
  by (auto simp: opts_next_list_def split: ListMode.splits if_splits dest: depth_pop_option)

lemma index_step_depth: "index_step nm ov ov' \<Longrightarrow> depth ov' = depth ov"
  by (simp add: index_step_def)

lemma depth_visit:
  assumes "visit RANGE_MAX strtosz c ov = Return e r ov'"
    and "c \<noteq> Start_struct" and "c \<noteq> End_struct"
  shows "depth ov' = depth ov"
proof (cases c)
  case (Start_list nm)
  with assms(1) show ?thesis
    by (auto simp: visit_def opts_start_list_def Let_def
             split: if_splits option.splits prod.splits dest!: map_outcome_Return)
next
  case Next_list
  with assms(1) show ?thesis
    by (auto simp: visit_def dest!: map_outcome_Return dest: depth_next_list)
next
  case End_list
  with assms(1) show ?thesis
    by (auto simp: visit_def opts_end_list_def split: if_splits dest!: map_outcome_Return)
next
  case (Type_int nm)
  with assms(1) show ?thesis
    by (auto simp: visit_def dest!: map_outcome_Return step_type_int dest: index_step_depth)
next
  case (Type_uint64 nm)
  with assms(1) show ?thesis
    by (auto simp: visit_def dest!: map_outcome_Return step_type_uint64 dest: index_step_depth)
next
  case (Type_size nm)
  with assms(1) show ?thesis
    by (auto simp: visit_def dest!: map_outcome_Return step_type_size dest: index_step_depth)
next
  case (Type_bool nm)
  with assms(1) show ?thesis
    by (auto simp: visit_def dest!: map_outcome_Return step_type_bool dest: index_step_depth)
next
  case (Type_str nm)
  with assms(1) show ?thesis
    by (auto simp: visit_def dest!: map_outcome_Return step_type_str dest: index_step_depth)
next
  case (Start_optional nm)
  with assms(1) show ?thesis
    by (auto simp: visit_def opts_start_optional_def
             split: if_splits option.splits prod.splits dest!: map_outcome_Return)
qed (use assms in simp_all)

lemma depth_start_struct:
  "visit RANGE_MAX strtosz Start_struct ov = Return e r ov' \<Longrightarrow> depth ov' = depth ov + 1"
  by (auto simp: visit_def opts_start_struct_def Let_def
           split: if_splits option.splits dest!: map_outcome_Return)

lemma depth_end_struct:
  "visit RANGE_MAX strtosz End_struct ov = Return e r ov' \<Longrightarrow> depth ov' = depth ov - 1"
  by (auto simp: visit_def opts_end_struct_def Let_def
           split: if_splits option.splits dest!: map_outcome_Return)

lemma unat32_Suc:
  assumes "Suc (unat (d :: 32 word)) < 2 ^ 32"
  shows "unat (d + 1) = Suc (unat d)"
proof -
  have "unat (d + 1) = (unat d + 1) mod 2 ^ 32"
    by (simp add: unat_word_ariths)
  with assms show ?thesis by simp
qed

lemma unat32_pred:
  assumes "1 < unat (d :: 32 word)"
  shows "unat (d - 1) = unat d - 1"
proof -
  from assms have "d \<noteq> 0" by (auto simp: unat_0)
  then show ?thesis by (rule unat_minus_one)
qed

text \<open>The facts that hold of the visitor inside the outermost struct, at struct depth
  \<open>d\<close>, while the name \<open>k\<close> is undecoded.\<close>

lemma undecoded_step:
  assumes inv: "index_inv ov" and d: "unat (depth ov) = d" and d1: "1 \<le> d"
    and t: "unprocessed_opts ov = Some t" and q: "g_hash_table_lookup t k = Some q"
    and p: "repeated_opts ov \<noteq> Ptr k"
    and c: "\<not> decodes k c" and sd: "struct_depth d [c] = Some d'"
    and v: "visit RANGE_MAX strtosz c ov = Return e r ov'"
  shows "index_inv ov' \<and> unat (depth ov') = d' \<and> 1 \<le> d' \<and>
         (\<exists>t'. unprocessed_opts ov' = Some t' \<and> g_hash_table_lookup t' k = Some q) \<and>
         repeated_opts ov' \<noteq> Ptr k"
proof -
  from c have nc: "c \<notin> {Start_list k, Type_int k, Type_uint64 k, Type_size k, Type_bool k, Type_str k}"
    by (simp add: decodes_def)
  have e1: "c = End_struct \<longrightarrow> depth ov \<noteq> 1"
    using sd d by (auto split: if_splits)
  have s0: "c = Start_struct \<longrightarrow> depth ov \<noteq> 0"
    using d d1 by (auto simp: unat_0)
  from name_kept [OF inv t q p nc e1 s0 v]
  have kept: "(\<exists>t'. unprocessed_opts ov' = Some t' \<and> g_hash_table_lookup t' k = Some q) \<and>
              repeated_opts ov' \<noteq> Ptr k" by blast
  have inv': "index_inv ov'" by (rule inv_visit [OF v inv])
  have dep: "unat (depth ov') = d' \<and> 1 \<le> d'"
  proof (cases "c = Start_struct")
    case True
    with sd have "Suc d < 2 ^ 32" and "d' = Suc d" by (auto split: if_splits)
    with True d depth_start_struct [of RANGE_MAX strtosz ov e r ov'] v unat32_Suc [of "depth ov"]
    show ?thesis by simp
  next
    case False
    show ?thesis
    proof (cases "c = End_struct")
      case True
      with sd have "1 < d" and "d' = d - 1" by (auto split: if_splits)
      with True d depth_end_struct [of RANGE_MAX strtosz ov e r ov'] v unat32_pred [of "depth ov"]
      show ?thesis by simp
    next
      case nE: False
      from False nE sd have "d' = d" by (cases c) simp_all
      with depth_visit [OF v False nE] d d1 show ?thesis by simp
    qed
  qed
  from inv' dep kept show ?thesis by blast
qed

lemma struct_depth_Cons:
  "struct_depth d (c # cs) = Some d'' \<Longrightarrow>
     \<exists>d'. struct_depth d [c] = Some d' \<and> struct_depth d' cs = Some d''"
  by (cases c) (auto split: if_splits)

lemma undecoded_run:
  assumes "index_inv ov" and "unat (depth ov) = d" and "1 \<le> d"
    and "unprocessed_opts ov = Some t" and "g_hash_table_lookup t k = Some q"
    and "repeated_opts ov \<noteq> Ptr k"
    and "list_all (\<lambda>c. \<not> decodes k c) cs" and "struct_depth d cs = Some d''"
    and "visits RANGE_MAX strtosz cs ov = Some ov''"
  shows "index_inv ov'' \<and> unat (depth ov'') = d'' \<and>
         (\<exists>t'. unprocessed_opts ov'' = Some t' \<and> g_hash_table_lookup t' k = Some q)"
  using assms
proof (induction cs arbitrary: ov d t)
  case Nil
  then show ?case by simp
next
  case (Cons c cs)
  from Cons.prems(9) obtain e r ov' where v: "visit RANGE_MAX strtosz c ov = Return e r ov'"
    and vs: "visits RANGE_MAX strtosz cs ov' = Some ov''"
    by (auto split: outcome.splits)
  from struct_depth_Cons [OF Cons.prems(8)] obtain d' where sd: "struct_depth d [c] = Some d'"
    and sds: "struct_depth d' cs = Some d''" by blast
  from Cons.prems(7) have c: "\<not> decodes k c" and cs: "list_all (\<lambda>c. \<not> decodes k c) cs"
    by simp_all
  from undecoded_step [OF Cons.prems(1,2,3,4,5,6) c sd v]
  obtain t' where "index_inv ov'" "unat (depth ov') = d'" "1 \<le> d'"
    "unprocessed_opts ov' = Some t'" "g_hash_table_lookup t' k = Some q"
    "repeated_opts ov' \<noteq> Ptr k" by blast
  from Cons.IH [OF this cs sds vs] show ?case .
qed

lemma end_struct_reports:
  assumes "index_inv ov" and "depth ov = 1" and "unprocessed_opts ov = Some t"
  shows "(t = [] \<longrightarrow>
            opts_end_struct ov =
              Returned (ov\<lparr>depth := 0, unprocessed_opts := None, fake_id_opt := None\<rparr>)) \<and>
         (t \<noteq> [] \<longrightarrow>
            (\<exists>n \<in> fst ` set t.
               opts_end_struct ov =
                 Failed (QERR_INVALID_PARAMETER n)
                   (ov\<lparr>depth := 0, unprocessed_opts := None, fake_id_opt := None\<rparr>)))"
proof (cases t)
  case Nil
  with assms show ?thesis
    by (simp add: opts_end_struct_def g_hash_table_find_any_def)
next
  case (Cons e t')
  obtain k' q' where e: "e = (k', q')" by (cases e)
  from index_inv_head [OF assms(1)] assms(3) Cons e
  obtain first where "g_queue_peek_head q' = Some first" and "name first = k'" by auto
  with assms Cons e
  have "opts_end_struct ov =
          Failed (QERR_INVALID_PARAMETER k')
            (ov\<lparr>depth := 0, unprocessed_opts := None, fake_id_opt := None\<rparr>)"
    by (simp add: opts_end_struct_def g_hash_table_find_any_def)
  with Cons e show ?thesis by auto
qed

lemma start_struct_new:
  assumes "opts_start_struct (opts_visitor_new opts) = Return e r ov"
  shows "depth ov = 1 \<and> repeated_opts ov = NULL"
  using assms
  by (auto simp: opts_start_struct_def opts_visitor_new_def Let_def split: option.splits)

lemma lookup_non_empty: "g_hash_table_lookup t k = Some q \<Longrightarrow> t \<noteq> []"
  by (auto simp: g_hash_table_lookup_def)

lemma undecoded_session:
  assumes k: "k \<in> name ` set (head opts) \<or> (k = ''id'' \<and> opts_id opts \<noteq> None)"
    and cs: "list_all (\<lambda>c. \<not> decodes k c) cs" and sd: "struct_depth 1 cs = Some 1"
    and run: "visits RANGE_MAX strtosz (Start_struct # cs) (opts_visitor_new opts) = Some ov"
  shows "\<exists>n. opts_end_struct ov =
               Failed (QERR_INVALID_PARAMETER n)
                 (ov\<lparr>depth := 0, unprocessed_opts := None, fake_id_opt := None\<rparr>)"
proof -
  let ?new = "opts_visitor_new opts"
  from run obtain e r ov1 where v: "visit RANGE_MAX strtosz Start_struct ?new = Return e r ov1"
    and vs: "visits RANGE_MAX strtosz cs ov1 = Some ov"
    by (auto split: outcome.splits)
  from v obtain r0 where s: "opts_start_struct ?new = Return e r0 ov1"
    by (auto simp: visit_def dest!: map_outcome_Return)
  have d0: "depth ?new = 0" and root: "opts_root ?new = opts"
    by (simp_all add: opts_visitor_new_def)
  from start_struct_index [OF d0 s] root obtain t where t: "unprocessed_opts ov1 = Some t"
    and inv: "table_inv t"
    and look: "\<And>k. g_hash_table_lookup t k =
                 (let q = filter (\<lambda>opt. name opt = k)
                            (head opts @ (case opts_id opts of
                                            None \<Rightarrow> []
                                          | Some i \<Rightarrow> [\<lparr>name = ''id'', str = Some i\<rparr>]))
                  in if q = [] then None else Some q)"
    by auto
  from k have "filter (\<lambda>opt. name opt = k)
                 (head opts @ (case opts_id opts of
                                 None \<Rightarrow> []
                               | Some i \<Rightarrow> [\<lparr>name = ''id'', str = Some i\<rparr>])) \<noteq> []"
    by (auto simp: filter_empty_conv split: option.splits)
  with look [of k] obtain q where q: "g_hash_table_lookup t k = Some q"
    by (auto simp: Let_def)
  from t inv have i1: "index_inv ov1" by (simp add: index_inv_def)
  from start_struct_new [OF s] have d1: "unat (depth ov1) = 1" and p: "repeated_opts ov1 \<noteq> Ptr k"
    by simp_all
  from undecoded_run [OF i1 d1 _ t q p cs sd vs]
  obtain t' where i: "index_inv ov" and d: "unat (depth ov) = 1"
    and t': "unprocessed_opts ov = Some t'" and q': "g_hash_table_lookup t' k = Some q"
    by auto
  from d have "depth ov = 1" by (simp add: word_unat_eq_iff)
  from end_struct_reports [OF i this t'] lookup_non_empty [OF q'] show ?thesis by blast
qed

subsection \<open>Interval bounds\<close>

lemma sint64_bounds: "- (2 ^ 63) \<le> sint (w :: 64 word) \<and> sint w < 2 ^ 63"
  using sint_ge [of w] sint_lt [of w] by simp

lemma sint_INT64_MAX: "sint INT64_MAX = 2 ^ 63 - 1"
  by (simp add: INT64_MAX_def)

lemma sint_INT64_MIN: "sint INT64_MIN = - (2 ^ 63)"
  by (simp add: INT64_MIN_def)

lemma int64_in_range: "INT64_MIN \<le>s v \<and> v \<le>s INT64_MAX"
  using sint64_bounds [of v]
  by (simp add: word_sle_eq sint_INT64_MAX sint_INT64_MIN)

lemma uint64_in_range: "(v::64 word) \<le> UINT64_MAX"
  using uint_lt2p [of v] by (simp add: UINT64_MAX_def word_le_def)

lemma int64_in_range_sint: "sint INT64_MIN \<le> sint (v :: 64 word) \<and> sint v \<le> sint INT64_MAX"
  using int64_in_range [of v] by (simp add: word_sle_eq)

lemma uint64_in_range_uint: "uint (v::64 word) \<le> uint UINT64_MAX"
  using uint64_in_range [of v] by (simp add: word_le_def)

lemma sint_nonneg_uint:
  assumes "0 \<le> sint (w :: 64 word)"
  shows "sint w = uint w"
proof -
  have "sint w = signed_take_bit 63 (uint w)" by (simp add: sint_uint)
  also have "\<dots> = take_bit 64 (uint w) - 2 ^ 64 * of_bool (bit (uint w) 63)"
    by (simp add: signed_take_bit_eq_take_bit_minus)
  also have "take_bit 64 (uint w) = uint w"
    using uint_lt2p [of w] by (simp add: take_bit_int_eq_self)
  finally have e: "sint w = uint w - 2 ^ 64 * of_bool (bit (uint w) 63)" .
  show ?thesis
  proof (cases "bit (uint w) 63")
    case True
    with e uint_lt2p [of w] have "sint w < 0" by simp
    with assms show ?thesis by simp
  next
    case False
    with e show ?thesis by simp
  qed
qed

lemma sint64_add:
  "- (2 ^ 63) \<le> sint a + sint b \<Longrightarrow> sint a + sint b < 2 ^ 63 \<Longrightarrow>
     sint (a + b :: 64 word) = sint a + sint b"
  by (simp add: sint_word_ariths signed_take_bit_int_eq_self)

lemma sint64_sub:
  "- (2 ^ 63) \<le> sint a - sint b \<Longrightarrow> sint a - sint b < 2 ^ 63 \<Longrightarrow>
     sint (a - b :: 64 word) = sint a - sint b"
  by (simp add: sint_word_ariths signed_take_bit_int_eq_self)

lemma signed_interval_fits_defined:
  assumes "0 \<le>s RANGE_MAX"
  shows "signed_interval_fits RANGE_MAX val val2 =
           Some (if 2 ^ 63 - 1 - sint RANGE_MAX < sint val then True
                 else sint val2 < sint val + sint RANGE_MAX)"
proof -
  from assms have r0: "0 \<le> sint RANGE_MAX" by (simp add: word_sle_eq)
  note rb = sint64_bounds [of RANGE_MAX]
  note vb = sint64_bounds [of val]
  have lo: "- (2 ^ 63) \<le> sint INT64_MAX - sint RANGE_MAX"
    and hi: "sint INT64_MAX - sint RANGE_MAX < 2 ^ 63"
    using r0 rb by (simp_all add: sint_INT64_MAX)
  have m: "int64_sub INT64_MAX RANGE_MAX = Some (INT64_MAX - RANGE_MAX)"
    using lo hi by (simp add: int64_sub_def)
  have sm: "sint (INT64_MAX - RANGE_MAX) = 2 ^ 63 - 1 - sint RANGE_MAX"
    using sint64_sub [OF lo hi] by (simp add: sint_INT64_MAX)
  show ?thesis
  proof (cases "2 ^ 63 - 1 - sint RANGE_MAX < sint val")
    case True
    then show ?thesis by (simp add: signed_interval_fits_def m word_sless_alt sm)
  next
    case False
    then have a: "- (2 ^ 63) \<le> sint val + sint RANGE_MAX" and b: "sint val + sint RANGE_MAX < 2 ^ 63"
      using r0 vb by simp_all
    have "int64_add val RANGE_MAX = Some (val + RANGE_MAX)"
      using a b by (simp add: int64_add_def)
    with False show ?thesis
      by (simp add: signed_interval_fits_def m word_sless_alt sm sint64_add [OF a b])
  qed
qed

lemma signed_interval_fits_span:
  assumes "0 \<le>s RANGE_MAX" and "val \<le>s val2"
  shows "signed_interval_fits RANGE_MAX val val2 = Some (sint val2 - sint val < sint RANGE_MAX)"
proof -
  from assms(2) have "sint val \<le> sint val2" by (simp add: word_sle_eq)
  with sint64_bounds [of val2] show ?thesis
    by (auto simp: signed_interval_fits_defined [OF assms(1)])
qed

lemma unsigned_interval_span:
  assumes "0 \<le>s (RANGE_MAX :: 64 word)" and "val \<le> val2"
  shows "val2 - val < RANGE_MAX \<longleftrightarrow> uint val2 - uint val < sint RANGE_MAX"
proof -
  from assms(1) have "0 \<le> sint RANGE_MAX" by (simp add: word_sle_eq)
  then have r: "sint RANGE_MAX = uint RANGE_MAX" by (rule sint_nonneg_uint)
  from assms(2) have "uint (val2 - val) = uint val2 - uint val"
    using uint_sub_lem [of val val2] by (simp add: word_le_def)
  then show ?thesis by (simp add: word_less_def r)
qed

lemma int_range_decode:
  assumes "0 \<le>s RANGE_MAX" and "list_mode ov = LM_IN_PROGRESS"
    and "lookup_scalar ov nm = Done (Some opt) ov"
    and "strtoll (case str opt of Some s \<Rightarrow> s | None \<Rightarrow> []) 0 = (val, CHR ''-'' # s2, errno)"
  shows "opts_type_int RANGE_MAX ov nm =
           (case strtoll s2 errno of (val2, endptr2, errno2) \<Rightarrow>
              if errno = 0 \<and>
                 length (CHR ''-'' # s2) < length (case str opt of Some s \<Rightarrow> s | None \<Rightarrow> []) \<and>
                 errno2 = 0 \<and> s2 \<noteq> [] \<and> endptr2 = [] \<and>
                 sint val \<le> sint val2 \<and> sint val2 - sint val < sint RANGE_MAX
              then Done val (ov\<lparr>range_next := val, range_limit := val2,
                                list_mode := LM_SIGNED_INTERVAL\<rparr>)
              else Failed (QERR_INVALID_PARAMETER_VALUE (name opt) ''an int64 value or range'') ov)"
proof -
  obtain val2 endptr2 errno2 where p2: "strtoll s2 errno = (val2, endptr2, errno2)"
    by (cases "strtoll s2 errno") auto
  show ?thesis
  proof (cases "val \<le>s val2")
    case True
    with assms(2,4) p2 show ?thesis
      by (auto simp: opts_type_int_def with_scalar_found [OF assms(3)] Let_def int64_in_range_sint
                     signed_interval_fits_span [OF assms(1) True] word_sle_eq)
  next
    case False
    with assms(2,4) p2 show ?thesis
      by (auto simp: opts_type_int_def with_scalar_found [OF assms(3)] Let_def int64_in_range_sint
                     word_sle_eq)
  qed
qed

lemma uint64_range_decode:
  assumes "0 \<le>s RANGE_MAX" and "list_mode ov = LM_IN_PROGRESS"
    and "lookup_scalar ov nm = Done (Some opt) ov"
    and "parse_uint (str opt) = (r, val, CHR ''-'' # s2)"
  shows "opts_type_uint64 RANGE_MAX ov nm =
           (case parse_uint_full (Some s2) of (r2, val2) \<Rightarrow>
              if r = 0 \<and> r2 = 0 \<and> uint val \<le> uint val2 \<and>
                 uint val2 - uint val < sint RANGE_MAX
              then Done val (ov\<lparr>range_next := val, range_limit := val2,
                                list_mode := LM_UNSIGNED_INTERVAL\<rparr>)
              else Failed (QERR_INVALID_PARAMETER_VALUE (name opt) ''a uint64 value or range'') ov)"
proof -
  obtain r2 val2 where p2: "parse_uint_full (Some s2) = (r2, val2)"
    by (cases "parse_uint_full (Some s2)") auto
  show ?thesis
  proof (cases "val \<le> val2")
    case True
    with assms(2,4) p2 show ?thesis
      by (auto simp: opts_type_uint64_def with_scalar_found [OF assms(3)] Let_def uint64_in_range_uint
                     unsigned_interval_span [OF assms(1) True] word_le_def)
  next
    case False
    with assms(2,4) p2 show ?thesis
      by (auto simp: opts_type_uint64_def with_scalar_found [OF assms(3)] Let_def uint64_in_range_uint
                     word_le_def)
  qed
qed

lemma parse_uint_5_3: "parse_uint (Some ''5-3'') = (0, 5, ''-3'')"
  by (simp add: parse_simps)

lemma parse_uint_full_3: "parse_uint_full (Some ''3'') = (0, 3)"
  by (simp add: parse_simps)

lemma parse_uint_3_7: "parse_uint (Some ''3-7'') = (0, 3, ''-7'')"
  by (simp add: parse_simps)

lemma parse_uint_full_7: "parse_uint_full (Some ''7'') = (0, 7)"
  by (simp add: parse_simps)

subsection \<open>A list with one interval\<close>

lemma strtoll_7: "strtoll ''7'' 0 = (7, [], 0)"
  by (simp add: parse_simps)

text \<open>
  Claim C1. With the cap above 4, the options holding the single occurrence
  \<^verbatim>\<open>nums=3-7\<close> are decoded as a list of signed integers as follows. The first
  \<^verbatim>\<open>opts_next_list\<close> exposes the occurrence; \<^verbatim>\<open>opts_type_int\<close> (whatever name it is given)
  yields 3 and enters the interval state with the queue of \<^verbatim>\<open>nums\<close> untouched; the
  following calls of \<^verbatim>\<open>opts_next_list\<close> and \<^verbatim>\<open>opts_type_int\<close> yield 4, 5, 6 and 7, still
  with the queue untouched; the call of \<^verbatim>\<open>opts_next_list\<close> that finds the counter at the
  limit pops the one occurrence, removes \<^verbatim>\<open>nums\<close> from the index and ends the list.
  Closing the list and the struct then succeeds.
\<close>

theorem range_expansion:
  assumes "4 <s RANGE_MAX"
  shows
  "let nums = \<lparr>name = ''nums'', str = Some ''3-7''\<rparr>;
       T = [(''nums'', [nums])];
       st = (\<lambda>m p n l t. \<lparr>opts_root = \<lparr>head = [nums], opts_id = None\<rparr>, depth = 1,
               unprocessed_opts = Some t, list_mode = m, repeated_opts = p, range_next = n,
               range_limit = l, fake_id_opt = None\<rparr>);
       rg = (\<lambda>n. st LM_SIGNED_INTERVAL (Ptr ''nums'') n 7 T)
   in opts_start_struct (opts_visitor_new \<lparr>head = [nums], opts_id = None\<rparr>) =
        Returned (st LM_NONE NULL 0 0 T) \<and>
      opts_start_list (st LM_NONE NULL 0 0 T) ''nums'' =
        Returned (st LM_STARTED (Ptr ''nums'') 0 0 T) \<and>
      opts_next_list (st LM_STARTED (Ptr ''nums'') 0 0 T) =
        Done True (st LM_IN_PROGRESS (Ptr ''nums'') 0 0 T) \<and>
      opts_type_int RANGE_MAX (st LM_IN_PROGRESS (Ptr ''nums'') 0 0 T) nm = Done 3 (rg 3) \<and>
      opts_next_list (rg 3) = Done True (rg 4) \<and>
      opts_type_int RANGE_MAX (rg 4) nm = Done 4 (rg 4) \<and>
      opts_next_list (rg 4) = Done True (rg 5) \<and>
      opts_type_int RANGE_MAX (rg 5) nm = Done 5 (rg 5) \<and>
      opts_next_list (rg 5) = Done True (rg 6) \<and>
      opts_type_int RANGE_MAX (rg 6) nm = Done 6 (rg 6) \<and>
      opts_next_list (rg 6) = Done True (rg 7) \<and>
      opts_type_int RANGE_MAX (rg 7) nm = Done 7 (rg 7) \<and>
      opts_next_list (rg 7) = Done False (st LM_IN_PROGRESS (Ptr ''nums'') 7 7 []) \<and>
      opts_end_list (st LM_IN_PROGRESS (Ptr ''nums'') 7 7 []) =
        Returned (st LM_NONE NULL 7 7 []) \<and>
      opts_end_struct (st LM_NONE NULL 7 7 []) =
        Returned ((st LM_NONE NULL 7 7 [])\<lparr>depth := 0, unprocessed_opts := None\<rparr>)"
proof -
  let ?nums = "\<lparr>name = ''nums'', str = Some ''3-7''\<rparr>"
  let ?T = "[(''nums'', [?nums])]"
  let ?st = "\<lambda>m p n l t. \<lparr>opts_root = \<lparr>head = [?nums], opts_id = None\<rparr>, depth = 1,
               unprocessed_opts = Some t, list_mode = m, repeated_opts = p, range_next = n,
               range_limit = l, fake_id_opt = None\<rparr>"
  let ?ip = "?st LM_IN_PROGRESS (Ptr ''nums'') 0 0 ?T"
  let ?rg = "\<lambda>n. ?st LM_SIGNED_INTERVAL (Ptr ''nums'') n 7 ?T"
  from assms have r4: "4 < sint RANGE_MAX" by (simp add: word_sless_alt)
  then have r0: "0 \<le>s RANGE_MAX" by (simp add: word_sle_eq)
  have 1: "opts_start_struct (opts_visitor_new \<lparr>head = [?nums], opts_id = None\<rparr>) =
             Returned (?st LM_NONE NULL 0 0 ?T)"
    by (simp add: opts_start_struct_def opts_visitor_new_def opts_visitor_insert_def
                  g_hash_table_insert_def g_hash_table_lookup_def Let_def)
  have 2: "opts_start_list (?st LM_NONE NULL 0 0 ?T) ''nums'' =
             Returned (?st LM_STARTED (Ptr ''nums'') 0 0 ?T)"
    by (simp add: opts_start_list_def lookup_distinct_def g_hash_table_lookup_def)
  have 3: "opts_next_list (?st LM_STARTED (Ptr ''nums'') 0 0 ?T) = Done True ?ip"
    by (simp add: opts_next_list_def)
  have l: "lookup_scalar ?ip nm = Done (Some ?nums) ?ip"
    by (simp add: lookup_scalar_def deref_def g_hash_table_lookup_def g_queue_peek_head_def)
  have m: "list_mode ?ip = LM_IN_PROGRESS" by simp
  have s: "strtoll (case str ?nums of Some s \<Rightarrow> s | None \<Rightarrow> []) 0 = (3, CHR ''-'' # ''7'', 0)"
    by (simp add: strtoll_3_7)
  have 4: "opts_type_int RANGE_MAX ?ip nm = Done 3 (?rg 3)"
    using int_range_decode [OF r0 m l s] r4 by (simp add: strtoll_7)
  have nx: "\<And>n. n <s 7 \<Longrightarrow> opts_next_list (?rg n) = Done True (?rg (n + 1))"
    by (simp add: opts_next_list_def)
  have ty: "\<And>n. opts_type_int RANGE_MAX (?rg n) nm = Done n (?rg n)"
    by (simp add: opts_type_int_def)
  have 5: "opts_next_list (?rg 3) = Done True (?rg 4)" using nx [of 3] by simp
  have 6: "opts_next_list (?rg 4) = Done True (?rg 5)" using nx [of 4] by simp
  have 7: "opts_next_list (?rg 5) = Done True (?rg 6)" using nx [of 5] by simp
  have 8: "opts_next_list (?rg 6) = Done True (?rg 7)" using nx [of 6] by simp
  have 9: "opts_next_list (?rg 7) = Done False (?st LM_IN_PROGRESS (Ptr ''nums'') 7 7 [])"
    by (simp add: opts_next_list_def pop_option_def g_hash_table_lookup_def
                  g_hash_table_remove_def)
  have 10: "opts_end_list (?st LM_IN_PROGRESS (Ptr ''nums'') 7 7 []) =
              Returned (?st LM_NONE NULL 7 7 [])"
    by (simp add: opts_end_list_def)
  have 11: "opts_end_struct (?st LM_NONE NULL 7 7 []) =
              Returned ((?st LM_NONE NULL 7 7 [])\<lparr>depth := 0, unprocessed_opts := None\<rparr>)"
    by (simp add: opts_end_struct_def g_hash_table_find_any_def)
  show ?thesis
    unfolding Let_def
    using 1 2 3 4 5 6 7 8 9 10 11 ty [of 4] ty [of 5] ty [of 6] ty [of 7] by simp
qed

theorem range_expansion_witness:
  "let nums = \<lparr>name = ''nums'', str = Some ''3-7''\<rparr>;
       T = [(''nums'', [nums])];
       st = (\<lambda>m p n l t. \<lparr>opts_root = \<lparr>head = [nums], opts_id = None\<rparr>, depth = 1,
               unprocessed_opts = Some t, list_mode = m, repeated_opts = p, range_next = n,
               range_limit = l, fake_id_opt = None\<rparr>)
   in (4 :: 64 word) <s 65536 \<and>
      opts_type_int 65536 (st LM_IN_PROGRESS (Ptr ''nums'') 0 0 T) ''nums'' =
        Done 3 (st LM_SIGNED_INTERVAL (Ptr ''nums'') 3 7 T) \<and>
      opts_next_list (st LM_SIGNED_INTERVAL (Ptr ''nums'') 3 7 T) =
        Done True (st LM_SIGNED_INTERVAL (Ptr ''nums'') 4 7 T) \<and>
      opts_next_list (st LM_SIGNED_INTERVAL (Ptr ''nums'') 7 7 T) =
        Done False (st LM_IN_PROGRESS (Ptr ''nums'') 7 7 [])"
proof -
  have r: "(4 :: 64 word) <s 65536" by (simp add: word_sless_alt)
  from range_expansion [OF r, of "''nums''"] r show ?thesis
    unfolding Let_def by simp
qed

subsection \<open>Scalars outside a list: the last occurrence, consumed once\<close>

text \<open>
  Claim C2. Outside a list (\<^verbatim>\<open>LM_NONE\<close>), for a name that has a non-empty queue in the
  index, the scalar lookup returns the last occurrence of the name, and every scalar
  decoder works on that occurrence. A decoder that succeeds removes the name from the
  index, so that any scalar decoder called again for the same name sets
  \<^verbatim>\<open>QERR_MISSING_PARAMETER\<close> with that name.
\<close>

theorem scalar_last_one_wins:
  assumes "list_mode ov = LM_NONE" and "unprocessed_opts ov = Some t"
    and "g_hash_table_lookup t nm = Some q" and "q \<noteq> []"
  shows "let ov' = ov\<lparr>unprocessed_opts := Some (g_hash_table_remove t nm)\<rparr>;
             s = (case str (last q) of Some s \<Rightarrow> s | None \<Rightarrow> [])
         in lookup_scalar ov nm = Done (Some (last q)) ov \<and>
            opts_type_str ov nm = Done s ov' \<and>
            (opts_type_bool ov nm = Done b ovb \<longrightarrow>
               ovb = ov' \<and> (b \<longleftrightarrow> str (last q) \<in> {None, Some ''on'', Some ''yes'', Some ''y''})) \<and>
            (opts_type_int RANGE_MAX ov nm = Done i ovi \<longrightarrow>
               ovi = ov' \<and> strtoll s 0 = (i, [], 0)) \<and>
            (opts_type_uint64 RANGE_MAX ov nm = Done u ovu \<longrightarrow>
               ovu = ov' \<and> parse_uint (str (last q)) = (0, u, [])) \<and>
            (opts_type_size strtosz ov nm = Done z ovz \<longrightarrow>
               ovz = ov' \<and> strtosz s = (z, [])) \<and>
            g_hash_table_lookup (g_hash_table_remove t nm) nm = None \<and>
            opts_type_str ov' nm = Failed (QERR_MISSING_PARAMETER nm) ov' \<and>
            opts_type_bool ov' nm = Failed (QERR_MISSING_PARAMETER nm) ov' \<and>
            opts_type_int RANGE_MAX ov' nm = Failed (QERR_MISSING_PARAMETER nm) ov' \<and>
            opts_type_uint64 RANGE_MAX ov' nm = Failed (QERR_MISSING_PARAMETER nm) ov' \<and>
            opts_type_size strtosz ov' nm = Failed (QERR_MISSING_PARAMETER nm) ov'"
proof -
  let ?ov' = "ov\<lparr>unprocessed_opts := Some (g_hash_table_remove t nm)\<rparr>"
  note w = with_scalar_last [OF assms]
  note p = store_processed_none [OF assms(1,2)]
  have m: "list_mode ?ov' = LM_NONE" using assms(1) by simp
  have t': "unprocessed_opts ?ov' = Some (g_hash_table_remove t nm)" by simp
  note miss = with_scalar_missing [OF m t' lookup_remove_same]
  have 1: "lookup_scalar ov nm = Done (Some (last q)) ov"
    by (rule lookup_scalar_last [OF assms])
  have 2: "opts_type_str ov nm = Done (case str (last q) of Some s \<Rightarrow> s | None \<Rightarrow> []) ?ov'"
    by (simp add: opts_type_str_def w p)
  have 3: "opts_type_bool ov nm = Done b ovb \<longrightarrow>
             ovb = ?ov' \<and> (b \<longleftrightarrow> str (last q) \<in> {None, Some ''on'', Some ''yes'', Some ''y''})"
    by (auto simp: opts_type_bool_def w p split: option.splits if_splits)
  have 4: "opts_type_int RANGE_MAX ov nm = Done i ovi \<longrightarrow>
             ovi = ?ov' \<and> strtoll (case str (last q) of Some s \<Rightarrow> s | None \<Rightarrow> []) 0 = (i, [], 0)"
    using assms(1)
    by (auto simp: opts_type_int_def w p Let_def split: option.splits if_splits prod.splits)
  have 5: "opts_type_uint64 RANGE_MAX ov nm = Done u ovu \<longrightarrow>
             ovu = ?ov' \<and> parse_uint (str (last q)) = (0, u, [])"
    using assms(1)
    by (auto simp: opts_type_uint64_def w p Let_def split: option.splits if_splits prod.splits)
  have 6: "opts_type_size strtosz ov nm = Done z ovz \<longrightarrow>
             ovz = ?ov' \<and> strtosz (case str (last q) of Some s \<Rightarrow> s | None \<Rightarrow> []) = (z, [])"
    by (auto simp: opts_type_size_def w p split: option.splits if_splits prod.splits)
  have 7: "opts_type_str ?ov' nm = Failed (QERR_MISSING_PARAMETER nm) ?ov'"
    by (simp only: opts_type_str_def miss)
  have 8: "opts_type_bool ?ov' nm = Failed (QERR_MISSING_PARAMETER nm) ?ov'"
    by (simp only: opts_type_bool_def miss)
  have 9: "opts_type_int RANGE_MAX ?ov' nm = Failed (QERR_MISSING_PARAMETER nm) ?ov'"
    using m by (simp add: opts_type_int_def miss)
  have 10: "opts_type_uint64 RANGE_MAX ?ov' nm = Failed (QERR_MISSING_PARAMETER nm) ?ov'"
    using m by (simp add: opts_type_uint64_def miss)
  have 11: "opts_type_size strtosz ?ov' nm = Failed (QERR_MISSING_PARAMETER nm) ?ov'"
    by (simp only: opts_type_size_def miss)
  show ?thesis
    unfolding Let_def using 1 2 3 4 5 6 7 8 9 10 11 lookup_remove_same [of t nm] by blast
qed
theorem scalar_last_one_wins_witness:
  "let t = [(''x'', [\<lparr>name = ''x'', str = Some ''1''\<rparr>, \<lparr>name = ''x'', str = Some ''2''\<rparr>]),
            (''y'', [\<lparr>name = ''y'', str = None\<rparr>])];
       ov = \<lparr>opts_root = \<lparr>head = [], opts_id = None\<rparr>, depth = 1, unprocessed_opts = Some t,
             list_mode = LM_NONE, repeated_opts = NULL, range_next = 0, range_limit = 0,
             fake_id_opt = None\<rparr>;
       ov' = ov\<lparr>unprocessed_opts := Some [(''y'', [\<lparr>name = ''y'', str = None\<rparr>])]\<rparr>
   in list_mode ov = LM_NONE \<and>
      g_hash_table_lookup t ''x'' =
        Some [\<lparr>name = ''x'', str = Some ''1''\<rparr>, \<lparr>name = ''x'', str = Some ''2''\<rparr>] \<and>
      opts_type_int 65536 ov ''x'' = Done 2 ov' \<and>
      opts_type_int 65536 ov' ''x'' = Failed (QERR_MISSING_PARAMETER ''x'') ov' \<and>
      opts_type_str ov' ''x'' = Failed (QERR_MISSING_PARAMETER ''x'') ov'"
proof -
  let ?q = "[\<lparr>name = ''x'', str = Some ''1''\<rparr>, \<lparr>name = ''x'', str = Some ''2''\<rparr>]"
  let ?t = "[(''x'', ?q), (''y'', [\<lparr>name = ''y'', str = None\<rparr>])]"
  let ?ov = "\<lparr>opts_root = \<lparr>head = [], opts_id = None\<rparr>, depth = 1, unprocessed_opts = Some ?t,
             list_mode = LM_NONE, repeated_opts = NULL, range_next = 0, range_limit = 0,
             fake_id_opt = None\<rparr>"
  have a: "list_mode ?ov = LM_NONE" and b: "unprocessed_opts ?ov = Some ?t"
    and c: "g_hash_table_lookup ?t ''x'' = Some ?q" and d: "?q \<noteq> []"
    by (simp_all add: g_hash_table_lookup_def)
  have e: "opts_type_int 65536 ?ov ''x'' =
             Done 2 (?ov\<lparr>unprocessed_opts := Some [(''y'', [\<lparr>name = ''y'', str = None\<rparr>])]\<rparr>)"
    by (simp add: opts_type_int_def with_scalar_last [OF a b c d] store_processed_none [OF a b]
                  Let_def parse_simps g_hash_table_remove_def)
  from scalar_last_one_wins [OF a b c d, where RANGE_MAX = 65536 and i = 2
      and ovi = "?ov\<lparr>unprocessed_opts := Some [(''y'', [\<lparr>name = ''y'', str = None\<rparr>])]\<rparr>"] e c
  show ?thesis
    unfolding Let_def by (simp add: g_hash_table_remove_def)
qed

subsection \<open>Closing the outermost struct\<close>

text \<open>
  Claim C3. When \<^verbatim>\<open>opts_end_struct\<close> brings the depth from 1 to 0, it succeeds if the index
  is empty, and otherwise sets \<^verbatim>\<open>QERR_INVALID_PARAMETER\<close> with one of the names left in
  the index; in both cases the index is destroyed. Hence, for any options and any
  sequence of calls made inside the outermost struct (the sequence closes the structs it
  opens, and its calls return): a name that the options provide (or \<^verbatim>\<open>id\<close>, if it is
  set) and that no call decodes or opens a list of makes the outermost
  \<^verbatim>\<open>opts_end_struct\<close> fail with \<^verbatim>\<open>QERR_INVALID_PARAMETER\<close>.
\<close>

theorem end_struct_leftover:
  "(index_inv ov \<and> depth ov = 1 \<and> unprocessed_opts ov = Some t \<longrightarrow>
      (t = [] \<longrightarrow>
         opts_end_struct ov =
           Returned (ov\<lparr>depth := 0, unprocessed_opts := None, fake_id_opt := None\<rparr>)) \<and>
      (t \<noteq> [] \<longrightarrow>
         (\<exists>n \<in> fst ` set t.
            opts_end_struct ov =
              Failed (QERR_INVALID_PARAMETER n)
                (ov\<lparr>depth := 0, unprocessed_opts := None, fake_id_opt := None\<rparr>)))) \<and>
   ((k \<in> name ` set (head opts) \<or> (k = ''id'' \<and> opts_id opts \<noteq> None)) \<and>
    list_all (\<lambda>c. \<not> decodes k c) cs \<and> struct_depth 1 cs = Some 1 \<and>
    visits RANGE_MAX strtosz (Start_struct # cs) (opts_visitor_new opts) = Some ovs \<longrightarrow>
      (\<exists>n. opts_end_struct ovs =
             Failed (QERR_INVALID_PARAMETER n)
               (ovs\<lparr>depth := 0, unprocessed_opts := None, fake_id_opt := None\<rparr>)))"
proof (intro conjI impI)
  assume a: "index_inv ov \<and> depth ov = 1 \<and> unprocessed_opts ov = Some t"
  then have r: "(t = [] \<longrightarrow>
         opts_end_struct ov =
           Returned (ov\<lparr>depth := 0, unprocessed_opts := None, fake_id_opt := None\<rparr>)) \<and>
      (t \<noteq> [] \<longrightarrow>
         (\<exists>n \<in> fst ` set t.
            opts_end_struct ov =
              Failed (QERR_INVALID_PARAMETER n)
                (ov\<lparr>depth := 0, unprocessed_opts := None, fake_id_opt := None\<rparr>)))"
    using end_struct_reports [of ov t] by blast
  {
    assume "t = []"
    with r show "opts_end_struct ov =
           Returned (ov\<lparr>depth := 0, unprocessed_opts := None, fake_id_opt := None\<rparr>)"
      by blast
  }
  {
    assume "t \<noteq> []"
    with r show "\<exists>n \<in> fst ` set t.
            opts_end_struct ov =
              Failed (QERR_INVALID_PARAMETER n)
                (ov\<lparr>depth := 0, unprocessed_opts := None, fake_id_opt := None\<rparr>)"
      by blast
  }
next
  assume "(k \<in> name ` set (head opts) \<or> (k = ''id'' \<and> opts_id opts \<noteq> None)) \<and>
    list_all (\<lambda>c. \<not> decodes k c) cs \<and> struct_depth 1 cs = Some 1 \<and>
    visits RANGE_MAX strtosz (Start_struct # cs) (opts_visitor_new opts) = Some ovs"
  then show "\<exists>n. opts_end_struct ovs =
             Failed (QERR_INVALID_PARAMETER n)
               (ovs\<lparr>depth := 0, unprocessed_opts := None, fake_id_opt := None\<rparr>)"
    using undecoded_session [of k opts cs RANGE_MAX strtosz ovs] by blast
qed

theorem end_struct_leftover_witness:
  "let extra = \<lparr>name = ''extra'', str = Some ''1''\<rparr>; x = \<lparr>name = ''x'', str = None\<rparr>;
       opts = \<lparr>head = [extra, x], opts_id = None\<rparr>;
       ovs = (opts_visitor_new opts)\<lparr>depth := 1, unprocessed_opts := Some [(''extra'', [extra])]\<rparr>
   in ''extra'' \<in> name ` set (head opts) \<and> \<not> decodes ''extra'' (Type_bool ''x'') \<and>
      struct_depth 1 [Type_bool ''x''] = Some 1 \<and>
      visits 65536 (\<lambda>s. (0, s)) [Start_struct, Type_bool ''x''] (opts_visitor_new opts) = Some ovs \<and>
      index_inv ovs \<and>
      opts_end_struct ovs =
        Failed (QERR_INVALID_PARAMETER ''extra'') (ovs\<lparr>depth := 0, unprocessed_opts := None\<rparr>)"
proof -
  let ?extra = "\<lparr>name = ''extra'', str = Some ''1''\<rparr>" and ?x = "\<lparr>name = ''x'', str = None\<rparr>"
  let ?opts = "\<lparr>head = [?extra, ?x], opts_id = None\<rparr>"
  let ?ovs = "(opts_visitor_new ?opts)\<lparr>depth := 1,
                 unprocessed_opts := Some [(''extra'', [?extra])]\<rparr>"
  have k: "''extra'' \<in> name ` set (head ?opts)" by simp
  have c: "list_all (\<lambda>c. \<not> decodes ''extra'' c) [Type_bool ''x'']"
    by (simp add: decodes_def)
  have sd: "struct_depth 1 [Type_bool ''x''] = Some 1" by simp
  have run: "visits 65536 (\<lambda>s. (0, s)) [Start_struct, Type_bool ''x''] (opts_visitor_new ?opts)
               = Some ?ovs"
    by (simp add: visit_def opts_start_struct_def opts_visitor_new_def opts_visitor_insert_def
                  g_hash_table_insert_def g_hash_table_lookup_def Let_def
                  opts_type_bool_def with_scalar_def lookup_scalar_def lookup_distinct_def
                  deref_def g_queue_peek_tail_def store_processed_def processed_def
                  g_hash_table_remove_def)
  have i: "index_inv ?ovs" and d: "depth ?ovs = 1"
    and t: "unprocessed_opts ?ovs = Some [(''extra'', [?extra])]"
    by (simp_all add: index_inv_def table_inv_def)
  from end_struct_leftover [where ov = ?ovs and t = "[(''extra'', [?extra])]"] i d t
  have e: "opts_end_struct ?ovs =
             Failed (QERR_INVALID_PARAMETER ''extra'')
               (?ovs\<lparr>depth := 0, unprocessed_opts := None\<rparr>)"
    by (simp add: opts_visitor_new_def)
  from end_struct_leftover [where k = "''extra''" and opts = ?opts and cs = "[Type_bool ''x'']"
      and RANGE_MAX = 65536 and strtosz = "\<lambda>s. (0, s)" and ovs = ?ovs] k c sd run
  have "\<exists>n. opts_end_struct ?ovs =
             Failed (QERR_INVALID_PARAMETER n)
               (?ovs\<lparr>depth := 0, unprocessed_opts := None, fake_id_opt := None\<rparr>)"
    by simp
  with k c sd run i e show ?thesis unfolding Let_def by simp
qed

subsection \<open>When an interval is accepted\<close>

text \<open>
  Claim C4. In a list (\<^verbatim>\<open>LM_IN_PROGRESS\<close>), with the cap \<^verbatim>\<open>OPTS_VISITOR_RANGE_MAX\<close> a
  non-negative \<^verbatim>\<open>int64_t\<close>, a value whose first number ends at a dash is accepted as an
  interval by the signed decoder exactly when both bounds parse completely (no range
  error, at least one character read, nothing left after the upper bound), the lower
  bound is at most the upper bound, and the upper bound minus the lower bound is
  strictly below the cap; the unsigned decoder accepts under the same condition on the
  unsigned values. Otherwise the decoder sets \<^verbatim>\<open>QERR_INVALID_PARAMETER_VALUE\<close> and changes
  nothing. The signed test never overflows: \<^verbatim>\<open>INT64_MAX - OPTS_VISITOR_RANGE_MAX\<close> and,
  when it is evaluated, \<^verbatim>\<open>val + OPTS_VISITOR_RANGE_MAX\<close> stay within \<^verbatim>\<open>int64_t\<close>. The
  unsigned value \<^verbatim>\<open>5-3\<close> fails with \<^verbatim>\<open>a uint64 value or range\<close>.
\<close>

theorem interval_acceptance:
  assumes "0 \<le>s RANGE_MAX" and "list_mode ov = LM_IN_PROGRESS"
    and "lookup_scalar ov nm = Done (Some opt) ov"
  shows "(strtoll (case str opt of Some s \<Rightarrow> s | None \<Rightarrow> []) 0 = (val, CHR ''-'' # upper, errno) \<longrightarrow>
          opts_type_int RANGE_MAX ov nm =
            (case strtoll upper errno of (val2, endptr2, errno2) \<Rightarrow>
               if errno = 0 \<and>
                  length (CHR ''-'' # upper) < length (case str opt of Some s \<Rightarrow> s | None \<Rightarrow> []) \<and>
                  errno2 = 0 \<and> upper \<noteq> [] \<and> endptr2 = [] \<and>
                  sint val \<le> sint val2 \<and> sint val2 - sint val < sint RANGE_MAX
               then Done val (ov\<lparr>range_next := val, range_limit := val2,
                                 list_mode := LM_SIGNED_INTERVAL\<rparr>)
               else Failed (QERR_INVALID_PARAMETER_VALUE (name opt) ''an int64 value or range'') ov)) \<and>
         (parse_uint (str opt) = (r, uval, CHR ''-'' # uupper) \<longrightarrow>
          opts_type_uint64 RANGE_MAX ov nm =
            (case parse_uint_full (Some uupper) of (r2, uval2) \<Rightarrow>
               if r = 0 \<and> r2 = 0 \<and> uint uval \<le> uint uval2 \<and>
                  uint uval2 - uint uval < sint RANGE_MAX
               then Done uval (ov\<lparr>range_next := uval, range_limit := uval2,
                                  list_mode := LM_UNSIGNED_INTERVAL\<rparr>)
               else Failed (QERR_INVALID_PARAMETER_VALUE (name opt) ''a uint64 value or range'') ov)) \<and>
         signed_interval_fits RANGE_MAX a b \<noteq> None \<and>
         (str opt = Some ''5-3'' \<longrightarrow>
          opts_type_uint64 RANGE_MAX ov nm =
            Failed (QERR_INVALID_PARAMETER_VALUE (name opt) ''a uint64 value or range'') ov)"
proof (intro conjI impI)
  assume "strtoll (case str opt of Some s \<Rightarrow> s | None \<Rightarrow> []) 0 = (val, CHR ''-'' # upper, errno)"
  from int_range_decode [OF assms this]
  show "opts_type_int RANGE_MAX ov nm =
            (case strtoll upper errno of (val2, endptr2, errno2) \<Rightarrow>
               if errno = 0 \<and>
                  length (CHR ''-'' # upper) < length (case str opt of Some s \<Rightarrow> s | None \<Rightarrow> []) \<and>
                  errno2 = 0 \<and> upper \<noteq> [] \<and> endptr2 = [] \<and>
                  sint val \<le> sint val2 \<and> sint val2 - sint val < sint RANGE_MAX
               then Done val (ov\<lparr>range_next := val, range_limit := val2,
                                 list_mode := LM_SIGNED_INTERVAL\<rparr>)
               else Failed (QERR_INVALID_PARAMETER_VALUE (name opt) ''an int64 value or range'') ov)" .
next
  assume "parse_uint (str opt) = (r, uval, CHR ''-'' # uupper)"
  from uint64_range_decode [OF assms this]
  show "opts_type_uint64 RANGE_MAX ov nm =
            (case parse_uint_full (Some uupper) of (r2, uval2) \<Rightarrow>
               if r = 0 \<and> r2 = 0 \<and> uint uval \<le> uint uval2 \<and>
                  uint uval2 - uint uval < sint RANGE_MAX
               then Done uval (ov\<lparr>range_next := uval, range_limit := uval2,
                                  list_mode := LM_UNSIGNED_INTERVAL\<rparr>)
               else Failed (QERR_INVALID_PARAMETER_VALUE (name opt) ''a uint64 value or range'') ov)" .
next
  show "signed_interval_fits RANGE_MAX a b \<noteq> None"
    by (simp add: signed_interval_fits_defined [OF assms(1)])
next
  assume s: "str opt = Some ''5-3''"
  then have "parse_uint (str opt) = (0, 5, CHR ''-'' # ''3'')" by (simp add: parse_uint_5_3)
  from uint64_range_decode [OF assms this]
  show "opts_type_uint64 RANGE_MAX ov nm =
          Failed (QERR_INVALID_PARAMETER_VALUE (name opt) ''a uint64 value or range'') ov"
    by (simp add: parse_uint_full_3)
qed

theorem interval_acceptance_witness:
  "let c = \<lparr>name = ''count'', str = Some ''5-3''\<rparr>; n = \<lparr>name = ''nums'', str = Some ''3-7''\<rparr>;
       st = (\<lambda>opt. \<lparr>opts_root = \<lparr>head = [opt], opts_id = None\<rparr>, depth = 1,
               unprocessed_opts = Some [(name opt, [opt])], list_mode = LM_IN_PROGRESS,
               repeated_opts = Ptr (name opt), range_next = 0, range_limit = 0,
               fake_id_opt = None\<rparr>)
   in (0 :: 64 word) \<le>s 65536 \<and> list_mode (st c) = LM_IN_PROGRESS \<and>
      lookup_scalar (st c) ''count'' = Done (Some c) (st c) \<and>
      opts_type_uint64 65536 (st c) ''count'' =
        Failed (QERR_INVALID_PARAMETER_VALUE ''count'' ''a uint64 value or range'') (st c) \<and>
      opts_type_int 65536 (st c) ''count'' =
        Failed (QERR_INVALID_PARAMETER_VALUE ''count'' ''an int64 value or range'') (st c) \<and>
      opts_type_uint64 65536 (st n) ''nums'' =
        Done 3 ((st n)\<lparr>range_next := 3, range_limit := 7, list_mode := LM_UNSIGNED_INTERVAL\<rparr>)"
proof -
  let ?c = "\<lparr>name = ''count'', str = Some ''5-3''\<rparr>"
  let ?n = "\<lparr>name = ''nums'', str = Some ''3-7''\<rparr>"
  let ?st = "\<lambda>opt. \<lparr>opts_root = \<lparr>head = [opt], opts_id = None\<rparr>, depth = 1,
               unprocessed_opts = Some [(name opt, [opt])], list_mode = LM_IN_PROGRESS,
               repeated_opts = Ptr (name opt), range_next = 0, range_limit = 0,
               fake_id_opt = None\<rparr>"
  have r: "(0 :: 64 word) \<le>s 65536" by (simp add: word_sle_eq)
  have m: "list_mode (?st ?c) = LM_IN_PROGRESS" and m': "list_mode (?st ?n) = LM_IN_PROGRESS"
    by simp_all
  have l: "lookup_scalar (?st ?c) ''count'' = Done (Some ?c) (?st ?c)"
    by (simp add: lookup_scalar_def deref_def g_hash_table_lookup_def g_queue_peek_head_def)
  have l': "lookup_scalar (?st ?n) ''nums'' = Done (Some ?n) (?st ?n)"
    by (simp add: lookup_scalar_def deref_def g_hash_table_lookup_def g_queue_peek_head_def)
  have s: "strtoll ''5-3'' 0 = (5, ''-3'', 0)" and s2: "strtoll ''3'' 0 = (3, [], 0)"
    by (simp_all add: parse_simps)
  from interval_acceptance [OF r m l, where val = 5 and upper = "''3''" and errno = 0] s s2
  have i: "opts_type_int 65536 (?st ?c) ''count'' =
        Failed (QERR_INVALID_PARAMETER_VALUE ''count'' ''an int64 value or range'') (?st ?c)"
    by simp
  from interval_acceptance [OF r m l]
  have u: "opts_type_uint64 65536 (?st ?c) ''count'' =
        Failed (QERR_INVALID_PARAMETER_VALUE ''count'' ''a uint64 value or range'') (?st ?c)"
    by simp
  from interval_acceptance [OF r m' l', where r = 0 and uval = 3 and uupper = "''7''"]
  have a: "opts_type_uint64 65536 (?st ?n) ''nums'' =
        Done 3 ((?st ?n)\<lparr>range_next := 3, range_limit := 7, list_mode := LM_UNSIGNED_INTERVAL\<rparr>)"
    by (simp add: parse_uint_3_7 parse_uint_full_7)
  from r m l i u a show ?thesis unfolding Let_def by simp
qed

subsection \<open>Closing a struct while a list is open\<close>

text \<open>
  Claim C5 says that \<^verbatim>\<open>opts_end_struct\<close> faults when a list is active. It does not: the
  function never reads \<^verbatim>\<open>list_mode\<close>. With the list of \<^verbatim>\<open>nums\<close> in progress at depth 1 it
  runs the leftover check, reports \<^verbatim>\<open>nums\<close> and destroys the index; at depth 2 (the
  struct of a list element) it returns with the depth at 1.
\<close>

theorem end_struct_in_list_counterexample:
  "let ov = \<lparr>opts_root = \<lparr>head = [\<lparr>name = ''nums'', str = Some ''1''\<rparr>], opts_id = None\<rparr>,
             depth = 1,
             unprocessed_opts = Some [(''nums'', [\<lparr>name = ''nums'', str = Some ''1''\<rparr>])],
             list_mode = LM_IN_PROGRESS, repeated_opts = Ptr ''nums'', range_next = 0,
             range_limit = 0, fake_id_opt = None\<rparr>
   in list_mode ov \<noteq> LM_NONE \<and>
      opts_end_struct ov =
        Failed (QERR_INVALID_PARAMETER ''nums'') (ov\<lparr>depth := 0, unprocessed_opts := None\<rparr>) \<and>
      opts_end_struct (ov\<lparr>depth := 2\<rparr>) = Returned ov"
  by (simp add: opts_end_struct_def g_hash_table_find_any_def g_queue_peek_head_def)

text \<open>
  Claim C5, amended. \<^verbatim>\<open>opts_end_struct\<close> never fails an assertion, and the list state has
  no influence on it: with any list mode and list pointer it does what it does without a
  list (the depth is decremented and, at depth 0, the leftover check and the teardown of
  the index take place), and it leaves the list mode and the list pointer as they were.
  The elements of a list are structs, so the function is called while a list is open.
\<close>

theorem end_struct_ignores_list_mode:
  "opts_end_struct ov \<noteq> Abort \<and>
   opts_end_struct (ov\<lparr>list_mode := m, repeated_opts := p\<rparr>) =
     (case opts_end_struct ov of
        Return e r ov' \<Rightarrow> Return e r (ov'\<lparr>list_mode := m, repeated_opts := p\<rparr>)
      | Undefined \<Rightarrow> Undefined
      | Abort \<Rightarrow> Abort)"
  by (simp add: opts_end_struct_def Let_def split: option.splits)

theorem end_struct_ignores_list_mode_witness:
  "let ov = \<lparr>opts_root = \<lparr>head = [\<lparr>name = ''nums'', str = Some ''1''\<rparr>], opts_id = None\<rparr>,
             depth = 2,
             unprocessed_opts = Some [(''nums'', [\<lparr>name = ''nums'', str = Some ''1''\<rparr>])],
             list_mode = LM_NONE, repeated_opts = NULL, range_next = 0,
             range_limit = 0, fake_id_opt = None\<rparr>
   in opts_end_struct (ov\<lparr>list_mode := LM_IN_PROGRESS, repeated_opts := Ptr ''nums''\<rparr>) =
        Returned (ov\<lparr>depth := 1, list_mode := LM_IN_PROGRESS, repeated_opts := Ptr ''nums''\<rparr>)"
  using end_struct_ignores_list_mode
    [where m = LM_IN_PROGRESS and p = "Ptr ''nums''" and ov = "\<lparr>opts_root = \<lparr>head = [\<lparr>name = ''nums'', str = Some ''1''\<rparr>], opts_id = None\<rparr>,
             depth = 2,
             unprocessed_opts = Some [(''nums'', [\<lparr>name = ''nums'', str = Some ''1''\<rparr>])],
             list_mode = LM_NONE, repeated_opts = NULL, range_next = 0,
             range_limit = 0, fake_id_opt = None\<rparr>"]
  by (simp add: opts_end_struct_def)

subsection \<open>The unsigned decoder and an option without a value\<close>

lemma parse_uint_absent: "parse_uint None = (- EINVAL, 0, [])"
  by (simp add: parse_uint_def)

lemma parse_uint_empty: "parse_uint (Some []) = (- EINVAL, 0, [])"
  by (simp add: parse_simps)

lemma strtoll_empty: "strtoll [] 0 = (0, [], 0)"
  by (simp add: parse_simps)

lemma with_scalar_cong:
  assumes "\<And>opt e. lookup_scalar ov nm = Return e (Some (Some opt)) ov \<Longrightarrow> f opt = g opt"
  shows "with_scalar ov nm f = with_scalar ov nm g"
proof (cases "lookup_scalar ov nm")
  case (Return e r ov')
  then have "ov' = ov" by (rule lookup_scalar_state)
  with Return assms show ?thesis
    by (auto simp: with_scalar_def split: option.splits)
qed (simp_all add: with_scalar_def)

lemma unsigned_fits:
  "val \<le> val2 \<and> val2 - val < (RANGE_MAX :: 64 word) \<longleftrightarrow> unsigned_bounds_fit RANGE_MAX val val2"
proof (cases "val \<le> val2")
  case True
  then have "uint (val2 - val) = uint val2 - uint val"
    using uint_sub_lem [of val val2] by (simp add: word_le_def)
  with True show ?thesis by (simp add: unsigned_bounds_fit_def word_less_def word_le_def)
next
  case False
  then show ?thesis by (simp add: unsigned_bounds_fit_def word_le_def)
qed

lemma int_mirror:
  assumes "0 \<le>s RANGE_MAX"
  shows "opts_type_int RANGE_MAX ov nm =
           spec_decode_integer LM_SIGNED_INTERVAL signed_number signed_bound
             (signed_bounds_fit RANGE_MAX) ''an int64 value'' ''an int64 value or range'' ov nm"
proof (cases "list_mode ov = LM_SIGNED_INTERVAL")
  case True
  then show ?thesis by (simp add: opts_type_int_def spec_decode_integer_def)
next
  case False
  have "with_scalar ov nm (\<lambda>opt.
        let s = (case str opt of Some s \<Rightarrow> s | None \<Rightarrow> []);
            err = Failed (QERR_INVALID_PARAMETER_VALUE (name opt)
                    (if list_mode ov = LM_NONE then ''an int64 value''
                     else ''an int64 value or range'')) ov
        in
        if \<not> (list_mode ov = LM_NONE \<or> list_mode ov = LM_IN_PROGRESS) then Abort
        else
          (case strtoll s 0 of (val, endptr, errno) \<Rightarrow>
             if errno = 0 \<and> length endptr < length s \<and> INT64_MIN \<le>s val \<and> val \<le>s INT64_MAX then
               if endptr = [] then store_processed val ov nm
               else if hd endptr = CHR ''-'' \<and> list_mode ov = LM_IN_PROGRESS then
                 (let s2 = tl endptr in
                  case strtoll s2 errno of (val2, endptr2, errno2) \<Rightarrow>
                    if errno2 = 0 \<and> length endptr2 < length s2 \<and> endptr2 = [] \<and>
                       INT64_MIN \<le>s val2 \<and> val2 \<le>s INT64_MAX \<and> val \<le>s val2
                    then
                      (case signed_interval_fits RANGE_MAX val val2 of
                         None \<Rightarrow> Undefined
                       | Some True \<Rightarrow>
                           Done val (ov\<lparr>range_next := val, range_limit := val2,
                                        list_mode := LM_SIGNED_INTERVAL\<rparr>)
                       | Some False \<Rightarrow> err)
                    else err)
               else err
             else err))
     = with_scalar ov nm (\<lambda>opt.
        let err = Failed (QERR_INVALID_PARAMETER_VALUE (name opt)
                    (if list_mode ov = LM_NONE then ''an int64 value''
                     else ''an int64 value or range'')) ov
        in
        case signed_number (str opt) of
          None \<Rightarrow> err
        | Some (lower, rest) \<Rightarrow>
            if rest = [] then store_processed lower ov nm
            else if hd rest = CHR ''-'' \<and> list_mode ov = LM_IN_PROGRESS then
              (case signed_bound (tl rest) of
                 None \<Rightarrow> err
               | Some upper \<Rightarrow>
                   if signed_bounds_fit RANGE_MAX lower upper
                   then Done lower (ov\<lparr>range_next := lower, range_limit := upper,
                                       list_mode := LM_SIGNED_INTERVAL\<rparr>)
                   else err)
            else err)"
  proof (rule with_scalar_cong)
    fix opt e
    assume l: "lookup_scalar ov nm = Return e (Some (Some opt)) ov"
    from lookup_scalar_found_table [OF l]
    have m: "list_mode ov = LM_NONE \<or> list_mode ov = LM_IN_PROGRESS" by simp
    let ?s = "case str opt of Some s \<Rightarrow> s | None \<Rightarrow> []"
    obtain val endptr errno where p: "strtoll ?s 0 = (val, endptr, errno)"
      by (cases "strtoll ?s 0") auto
    obtain val2 endptr2 errno2 where p2: "strtoll (tl endptr) 0 = (val2, endptr2, errno2)"
      by (cases "strtoll (tl endptr) 0") auto
    show "(let s = ?s;
            err = Failed (QERR_INVALID_PARAMETER_VALUE (name opt)
                    (if list_mode ov = LM_NONE then ''an int64 value''
                     else ''an int64 value or range'')) ov
        in
        if \<not> (list_mode ov = LM_NONE \<or> list_mode ov = LM_IN_PROGRESS) then Abort
        else
          (case strtoll s 0 of (val, endptr, errno) \<Rightarrow>
             if errno = 0 \<and> length endptr < length s \<and> INT64_MIN \<le>s val \<and> val \<le>s INT64_MAX then
               if endptr = [] then store_processed val ov nm
               else if hd endptr = CHR ''-'' \<and> list_mode ov = LM_IN_PROGRESS then
                 (let s2 = tl endptr in
                  case strtoll s2 errno of (val2, endptr2, errno2) \<Rightarrow>
                    if errno2 = 0 \<and> length endptr2 < length s2 \<and> endptr2 = [] \<and>
                       INT64_MIN \<le>s val2 \<and> val2 \<le>s INT64_MAX \<and> val \<le>s val2
                    then
                      (case signed_interval_fits RANGE_MAX val val2 of
                         None \<Rightarrow> Undefined
                       | Some True \<Rightarrow>
                           Done val (ov\<lparr>range_next := val, range_limit := val2,
                                        list_mode := LM_SIGNED_INTERVAL\<rparr>)
                       | Some False \<Rightarrow> err)
                    else err)
               else err
             else err))
     = (let err = Failed (QERR_INVALID_PARAMETER_VALUE (name opt)
                    (if list_mode ov = LM_NONE then ''an int64 value''
                     else ''an int64 value or range'')) ov
        in
        case signed_number (str opt) of
          None \<Rightarrow> err
        | Some (lower, rest) \<Rightarrow>
            if rest = [] then store_processed lower ov nm
            else if hd rest = CHR ''-'' \<and> list_mode ov = LM_IN_PROGRESS then
              (case signed_bound (tl rest) of
                 None \<Rightarrow> err
               | Some upper \<Rightarrow>
                   if signed_bounds_fit RANGE_MAX lower upper
                   then Done lower (ov\<lparr>range_next := lower, range_limit := upper,
                                       list_mode := LM_SIGNED_INTERVAL\<rparr>)
                   else err)
            else err)"
    proof (cases "val \<le>s val2")
      case True
      with m p p2 show ?thesis
        by (auto simp: Let_def signed_number_def signed_bound_def int64_in_range_sint
                       signed_interval_fits_span [OF assms True] signed_bounds_fit_def word_sle_eq)
    next
      case False
      with m p p2 show ?thesis
        by (auto simp: Let_def signed_number_def signed_bound_def int64_in_range_sint
                       signed_bounds_fit_def word_sle_eq)
    qed
  qed
  with False show ?thesis
    by (simp add: opts_type_int_def spec_decode_integer_def)
qed

lemma uint64_mirror:
  "opts_type_uint64 RANGE_MAX ov nm =
     spec_decode_integer LM_UNSIGNED_INTERVAL unsigned_number unsigned_bound
       (unsigned_bounds_fit RANGE_MAX) ''a uint64 value'' ''a uint64 value or range'' ov nm"
proof (cases "list_mode ov = LM_UNSIGNED_INTERVAL")
  case True
  then show ?thesis by (simp add: opts_type_uint64_def spec_decode_integer_def)
next
  case False
  have "with_scalar ov nm (\<lambda>opt.
        let err = Failed (QERR_INVALID_PARAMETER_VALUE (name opt)
                    (if list_mode ov = LM_NONE then ''a uint64 value''
                     else ''a uint64 value or range'')) ov
        in
        if \<not> (list_mode ov = LM_NONE \<or> list_mode ov = LM_IN_PROGRESS) then Abort
        else
          (case parse_uint (str opt) of (r, val, endptr) \<Rightarrow>
             if r = 0 \<and> val \<le> UINT64_MAX then
               if endptr = [] then store_processed val ov nm
               else if hd endptr = CHR ''-'' \<and> list_mode ov = LM_IN_PROGRESS then
                 (case parse_uint_full (Some (tl endptr)) of (r2, val2) \<Rightarrow>
                    if r2 = 0 \<and> val2 \<le> UINT64_MAX \<and> val \<le> val2 \<and> val2 - val < RANGE_MAX
                    then Done val (ov\<lparr>range_next := val, range_limit := val2,
                                      list_mode := LM_UNSIGNED_INTERVAL\<rparr>)
                    else err)
               else err
             else err))
     = with_scalar ov nm (\<lambda>opt.
        let err = Failed (QERR_INVALID_PARAMETER_VALUE (name opt)
                    (if list_mode ov = LM_NONE then ''a uint64 value''
                     else ''a uint64 value or range'')) ov
        in
        case unsigned_number (str opt) of
          None \<Rightarrow> err
        | Some (lower, rest) \<Rightarrow>
            if rest = [] then store_processed lower ov nm
            else if hd rest = CHR ''-'' \<and> list_mode ov = LM_IN_PROGRESS then
              (case unsigned_bound (tl rest) of
                 None \<Rightarrow> err
               | Some upper \<Rightarrow>
                   if unsigned_bounds_fit RANGE_MAX lower upper
                   then Done lower (ov\<lparr>range_next := lower, range_limit := upper,
                                       list_mode := LM_UNSIGNED_INTERVAL\<rparr>)
                   else err)
            else err)"
  proof (rule with_scalar_cong)
    fix opt e
    assume l: "lookup_scalar ov nm = Return e (Some (Some opt)) ov"
    from lookup_scalar_found_table [OF l]
    have m: "list_mode ov = LM_NONE \<or> list_mode ov = LM_IN_PROGRESS" by simp
    obtain r val endptr where p: "parse_uint (str opt) = (r, val, endptr)"
      by (cases "parse_uint (str opt)") auto
    obtain r2 val2 where p2: "parse_uint_full (Some (tl endptr)) = (r2, val2)"
      by (cases "parse_uint_full (Some (tl endptr))") auto
    from m p p2 unsigned_fits [of val val2 RANGE_MAX]
    show "(let err = Failed (QERR_INVALID_PARAMETER_VALUE (name opt)
                    (if list_mode ov = LM_NONE then ''a uint64 value''
                     else ''a uint64 value or range'')) ov
        in
        if \<not> (list_mode ov = LM_NONE \<or> list_mode ov = LM_IN_PROGRESS) then Abort
        else
          (case parse_uint (str opt) of (r, val, endptr) \<Rightarrow>
             if r = 0 \<and> val \<le> UINT64_MAX then
               if endptr = [] then store_processed val ov nm
               else if hd endptr = CHR ''-'' \<and> list_mode ov = LM_IN_PROGRESS then
                 (case parse_uint_full (Some (tl endptr)) of (r2, val2) \<Rightarrow>
                    if r2 = 0 \<and> val2 \<le> UINT64_MAX \<and> val \<le> val2 \<and> val2 - val < RANGE_MAX
                    then Done val (ov\<lparr>range_next := val, range_limit := val2,
                                      list_mode := LM_UNSIGNED_INTERVAL\<rparr>)
                    else err)
               else err
             else err))
     = (let err = Failed (QERR_INVALID_PARAMETER_VALUE (name opt)
                    (if list_mode ov = LM_NONE then ''a uint64 value''
                     else ''a uint64 value or range'')) ov
        in
        case unsigned_number (str opt) of
          None \<Rightarrow> err
        | Some (lower, rest) \<Rightarrow>
            if rest = [] then store_processed lower ov nm
            else if hd rest = CHR ''-'' \<and> list_mode ov = LM_IN_PROGRESS then
              (case unsigned_bound (tl rest) of
                 None \<Rightarrow> err
               | Some upper \<Rightarrow>
                   if unsigned_bounds_fit RANGE_MAX lower upper
                   then Done lower (ov\<lparr>range_next := lower, range_limit := upper,
                                       list_mode := LM_UNSIGNED_INTERVAL\<rparr>)
                   else err)
            else err)"
      by (auto simp: Let_def unsigned_number_def unsigned_bound_def uint64_in_range)
  qed
  with False show ?thesis
    by (simp add: opts_type_uint64_def spec_decode_integer_def)
qed

lemma signed_number_absent: "signed_number None = None \<and> signed_number (Some []) = None"
  by (simp add: signed_number_def strtoll_def scan_number_def)

lemma unsigned_number_absent: "unsigned_number None = None \<and> unsigned_number (Some []) = None"
  by (simp add: unsigned_number_def parse_simps)

text \<open>
  Claim C6. The unsigned decoder mirrors the signed one except for signedness: each is
  the one integer decoder of the spec, the signed one (for a non-negative cap) with
  \<^verbatim>\<open>strtoll\<close>, signed comparisons, \<^verbatim>\<open>LM_SIGNED_INTERVAL\<close> and the int64 descriptions, the
  unsigned one with \<^verbatim>\<open>parse_uint\<close>, unsigned comparisons, \<^verbatim>\<open>LM_UNSIGNED_INTERVAL\<close> and
  the uint64 descriptions. In particular each yields the counter in its interval state
  and changes nothing, and for an occurrence that carries no value both parsers give
  what they give for the empty string (no number), so that both decoders fail with
  \<^verbatim>\<open>QERR_INVALID_PARAMETER_VALUE\<close> and leave the visitor unchanged. The signed decoder
  replaces the absent value by the empty string; the unsigned one hands it to
  \<^verbatim>\<open>parse_uint\<close> as it is, which rejects it with the result it gives for the empty string.
\<close>

theorem uint64_mirrors_int:
  "(0 \<le>s RANGE_MAX \<longrightarrow>
      opts_type_int RANGE_MAX ov nm =
        spec_decode_integer LM_SIGNED_INTERVAL signed_number signed_bound
          (signed_bounds_fit RANGE_MAX) ''an int64 value'' ''an int64 value or range'' ov nm) \<and>
   opts_type_uint64 RANGE_MAX ov nm =
     spec_decode_integer LM_UNSIGNED_INTERVAL unsigned_number unsigned_bound
       (unsigned_bounds_fit RANGE_MAX) ''a uint64 value'' ''a uint64 value or range'' ov nm \<and>
   signed_number None = None \<and> signed_number (Some []) = None \<and>
   unsigned_number None = None \<and> unsigned_number (Some []) = None \<and>
   (list_mode ov = LM_UNSIGNED_INTERVAL \<longrightarrow>
      opts_type_uint64 RANGE_MAX ov nm = Done (range_next ov) ov) \<and>
   (list_mode ov = LM_SIGNED_INTERVAL \<longrightarrow>
      opts_type_int RANGE_MAX ov nm = Done (range_next ov) ov) \<and>
   (lookup_scalar ov nm = Done (Some opt) ov \<and> str opt = None \<longrightarrow>
      parse_uint (str opt) = parse_uint (Some []) \<and>
      opts_type_uint64 RANGE_MAX ov nm =
        Failed (QERR_INVALID_PARAMETER_VALUE (name opt)
                 (if list_mode ov = LM_NONE then ''a uint64 value''
                  else ''a uint64 value or range'')) ov \<and>
      opts_type_int RANGE_MAX ov nm =
        Failed (QERR_INVALID_PARAMETER_VALUE (name opt)
                 (if list_mode ov = LM_NONE then ''an int64 value''
                  else ''an int64 value or range'')) ov)"
proof (intro conjI impI)
  assume "0 \<le>s RANGE_MAX"
  then show "opts_type_int RANGE_MAX ov nm =
        spec_decode_integer LM_SIGNED_INTERVAL signed_number signed_bound
          (signed_bounds_fit RANGE_MAX) ''an int64 value'' ''an int64 value or range'' ov nm"
    by (rule int_mirror)
next
  show "opts_type_uint64 RANGE_MAX ov nm =
     spec_decode_integer LM_UNSIGNED_INTERVAL unsigned_number unsigned_bound
       (unsigned_bounds_fit RANGE_MAX) ''a uint64 value'' ''a uint64 value or range'' ov nm"
    by (rule uint64_mirror)
next
  show "signed_number None = None" and "signed_number (Some []) = None"
    using signed_number_absent by simp_all
next
  show "unsigned_number None = None" and "unsigned_number (Some []) = None"
    using unsigned_number_absent by simp_all
next
  assume "list_mode ov = LM_UNSIGNED_INTERVAL"
  then show "opts_type_uint64 RANGE_MAX ov nm = Done (range_next ov) ov"
    by (simp add: opts_type_uint64_def)
next
  assume "list_mode ov = LM_SIGNED_INTERVAL"
  then show "opts_type_int RANGE_MAX ov nm = Done (range_next ov) ov"
    by (simp add: opts_type_int_def)
next
  assume a: "lookup_scalar ov nm = Done (Some opt) ov \<and> str opt = None"
  then have l: "lookup_scalar ov nm = Done (Some opt) ov" and s: "str opt = None" by simp_all
  from lookup_scalar_found_table [OF l]
  have m: "list_mode ov = LM_NONE \<or> list_mode ov = LM_IN_PROGRESS" by simp
  from s show "parse_uint (str opt) = parse_uint (Some [])"
    by (simp add: parse_uint_absent parse_uint_empty)
  from m s show "opts_type_uint64 RANGE_MAX ov nm =
        Failed (QERR_INVALID_PARAMETER_VALUE (name opt)
                 (if list_mode ov = LM_NONE then ''a uint64 value''
                  else ''a uint64 value or range'')) ov"
    by (auto simp: opts_type_uint64_def with_scalar_found [OF l] Let_def parse_uint_absent
                   EINVAL_def)
  from m s show "opts_type_int RANGE_MAX ov nm =
        Failed (QERR_INVALID_PARAMETER_VALUE (name opt)
                 (if list_mode ov = LM_NONE then ''an int64 value''
                  else ''an int64 value or range'')) ov"
    by (auto simp: opts_type_int_def with_scalar_found [OF l] Let_def strtoll_empty)
qed

theorem uint64_mirrors_int_witness:
  "let flag = \<lparr>name = ''flag'', str = None\<rparr>; ten = \<lparr>name = ''n'', str = Some ''10''\<rparr>;
       ov = \<lparr>opts_root = \<lparr>head = [flag, ten], opts_id = None\<rparr>, depth = 1,
             unprocessed_opts = Some [(''flag'', [flag]), (''n'', [ten])], list_mode = LM_NONE,
             repeated_opts = NULL, range_next = 0, range_limit = 0, fake_id_opt = None\<rparr>
   in (0 :: 64 word) \<le>s 65536 \<and>
      lookup_scalar ov ''flag'' = Done (Some flag) ov \<and>
      opts_type_uint64 65536 ov ''flag'' =
        Failed (QERR_INVALID_PARAMETER_VALUE ''flag'' ''a uint64 value'') ov \<and>
      opts_type_int 65536 ov ''flag'' =
        Failed (QERR_INVALID_PARAMETER_VALUE ''flag'' ''an int64 value'') ov \<and>
      opts_type_uint64 65536 ov ''n'' = Done 10 (ov\<lparr>unprocessed_opts := Some [(''flag'', [flag])]\<rparr>) \<and>
      opts_type_int 65536 ov ''n'' = Done 10 (ov\<lparr>unprocessed_opts := Some [(''flag'', [flag])]\<rparr>) \<and>
      opts_type_uint64 65536 (ov\<lparr>list_mode := LM_UNSIGNED_INTERVAL, range_next := 9\<rparr>) ''flag'' =
        Done 9 (ov\<lparr>list_mode := LM_UNSIGNED_INTERVAL, range_next := 9\<rparr>)"
proof -
  let ?flag = "\<lparr>name = ''flag'', str = None\<rparr>" and ?ten = "\<lparr>name = ''n'', str = Some ''10''\<rparr>"
  let ?ov = "\<lparr>opts_root = \<lparr>head = [?flag, ?ten], opts_id = None\<rparr>, depth = 1,
             unprocessed_opts = Some [(''flag'', [?flag]), (''n'', [?ten])], list_mode = LM_NONE,
             repeated_opts = NULL, range_next = 0, range_limit = 0, fake_id_opt = None\<rparr>"
  have r: "(0 :: 64 word) \<le>s 65536" by (simp add: word_sle_eq)
  have l: "lookup_scalar ?ov ''flag'' = Done (Some ?flag) ?ov"
    by (simp add: lookup_scalar_def lookup_distinct_def deref_def g_hash_table_lookup_def
                  g_queue_peek_tail_def)
  have ln: "lookup_scalar ?ov ''n'' = Done (Some ?ten) ?ov"
    by (simp add: lookup_scalar_def lookup_distinct_def deref_def g_hash_table_lookup_def
                  g_queue_peek_tail_def)
  have su: "spec_decode_integer LM_UNSIGNED_INTERVAL unsigned_number unsigned_bound
              (unsigned_bounds_fit 65536) ''a uint64 value'' ''a uint64 value or range'' ?ov ''n''
            = Done 10 (?ov\<lparr>unprocessed_opts := Some [(''flag'', [?flag])]\<rparr>)"
    by (simp add: spec_decode_integer_def with_scalar_found [OF ln] unsigned_number_def
                  parse_simps store_processed_def processed_def g_hash_table_remove_def)
  have ss: "spec_decode_integer LM_SIGNED_INTERVAL signed_number signed_bound
              (signed_bounds_fit 65536) ''an int64 value'' ''an int64 value or range'' ?ov ''n''
            = Done 10 (?ov\<lparr>unprocessed_opts := Some [(''flag'', [?flag])]\<rparr>)"
    by (simp add: spec_decode_integer_def with_scalar_found [OF ln] signed_number_def
                  parse_simps store_processed_def processed_def g_hash_table_remove_def)
  have "(0 \<le>s (65536 :: 64 word) \<longrightarrow>
      opts_type_int 65536 ?ov ''n'' =
        spec_decode_integer LM_SIGNED_INTERVAL signed_number signed_bound
          (signed_bounds_fit 65536) ''an int64 value'' ''an int64 value or range'' ?ov ''n'') \<and>
     opts_type_uint64 65536 ?ov ''n'' =
       spec_decode_integer LM_UNSIGNED_INTERVAL unsigned_number unsigned_bound
         (unsigned_bounds_fit 65536) ''a uint64 value'' ''a uint64 value or range'' ?ov ''n''"
    using uint64_mirrors_int [where ov = ?ov and nm = "''n''" and RANGE_MAX = 65536]
    by blast
  with r have ten: "opts_type_uint64 65536 ?ov ''n'' =
               Done 10 (?ov\<lparr>unprocessed_opts := Some [(''flag'', [?flag])]\<rparr>)"
    "opts_type_int 65536 ?ov ''n'' =
               Done 10 (?ov\<lparr>unprocessed_opts := Some [(''flag'', [?flag])]\<rparr>)"
    by (simp_all only: su ss simp_thms)
  have "lookup_scalar ?ov ''flag'' = Done (Some ?flag) ?ov \<and> str ?flag = None \<longrightarrow>
      opts_type_uint64 65536 ?ov ''flag'' =
        Failed (QERR_INVALID_PARAMETER_VALUE (name ?flag)
                 (if list_mode ?ov = LM_NONE then ''a uint64 value''
                  else ''a uint64 value or range'')) ?ov \<and>
      opts_type_int 65536 ?ov ''flag'' =
        Failed (QERR_INVALID_PARAMETER_VALUE (name ?flag)
                 (if list_mode ?ov = LM_NONE then ''an int64 value''
                  else ''an int64 value or range'')) ?ov"
    using uint64_mirrors_int [where ov = ?ov and nm = "''flag''" and opt = ?flag
        and RANGE_MAX = 65536]
    by blast
  with l have bare: "opts_type_uint64 65536 ?ov ''flag'' =
        Failed (QERR_INVALID_PARAMETER_VALUE ''flag'' ''a uint64 value'') ?ov"
    "opts_type_int 65536 ?ov ''flag'' =
        Failed (QERR_INVALID_PARAMETER_VALUE ''flag'' ''an int64 value'') ?ov"
    by simp_all
  let ?iv = "?ov\<lparr>list_mode := LM_UNSIGNED_INTERVAL, range_next := 9\<rparr>"
  have "list_mode ?iv = LM_UNSIGNED_INTERVAL \<longrightarrow>
          opts_type_uint64 65536 ?iv ''flag'' = Done (range_next ?iv) ?iv"
    using uint64_mirrors_int [where ov = ?iv and nm = "''flag''" and RANGE_MAX = 65536]
    by blast
  then have iv: "opts_type_uint64 65536 ?iv ''flag'' = Done 9 ?iv"
    by simp
  note rest = bare iv
  from r l ten rest show ?thesis unfolding Let_def by simp
qed

subsection \<open>Booleans\<close>

text \<open>
  Claim C7. For an occurrence decoded as a boolean: without a value the result is true;
  with the value \<^verbatim>\<open>on\<close>, \<^verbatim>\<open>yes\<close> or \<^verbatim>\<open>y\<close> it is true; with \<^verbatim>\<open>off\<close>, \<^verbatim>\<open>no\<close> or \<^verbatim>\<open>n\<close> it is
  false; any other value sets \<^verbatim>\<open>QERR_INVALID_PARAMETER_VALUE\<close> with the option's name and
  \<^verbatim>\<open>on|yes|y|off|no|n\<close>, writes no value and leaves the visitor as it was. On success the
  name is removed from the index outside a list, and nothing changes inside one.
\<close>

theorem opts_type_bool_values:
  assumes "lookup_scalar ov nm = Done (Some opt) ov"
  shows "opts_type_bool ov nm =
           (let ov' = (if list_mode ov = LM_NONE
                       then ov\<lparr>unprocessed_opts :=
                              map_option (\<lambda>t. g_hash_table_remove t nm) (unprocessed_opts ov)\<rparr>
                       else ov)
            in case str opt of
                 None \<Rightarrow> Done True ov'
               | Some s \<Rightarrow>
                   if s = ''on'' \<or> s = ''yes'' \<or> s = ''y'' then Done True ov'
                   else if s = ''off'' \<or> s = ''no'' \<or> s = ''n'' then Done False ov'
                   else Failed (QERR_INVALID_PARAMETER_VALUE (name opt) ''on|yes|y|off|no|n'') ov)"
  using assms
  by (simp add: opts_type_bool_def with_scalar_def Let_def store_processed_found [OF assms]
           split: option.splits)

theorem opts_type_bool_values_witness:
  "let ov = \<lparr>opts_root = \<lparr>head = [\<lparr>name = ''flag'', str = None\<rparr>], opts_id = None\<rparr>,
             depth = 1, unprocessed_opts = Some [(''flag'', [\<lparr>name = ''flag'', str = None\<rparr>])],
             list_mode = LM_NONE, repeated_opts = NULL, range_next = 0, range_limit = 0,
             fake_id_opt = None\<rparr>
   in lookup_scalar ov ''flag'' = Done (Some \<lparr>name = ''flag'', str = None\<rparr>) ov \<and>
      opts_type_bool ov ''flag'' = Done True (ov\<lparr>unprocessed_opts := Some []\<rparr>)"
proof -
  let ?ov = "\<lparr>opts_root = \<lparr>head = [\<lparr>name = ''flag'', str = None\<rparr>], opts_id = None\<rparr>,
      depth = 1, unprocessed_opts = Some [(''flag'', [\<lparr>name = ''flag'', str = None\<rparr>])],
      list_mode = LM_NONE, repeated_opts = NULL, range_next = 0, range_limit = 0,
      fake_id_opt = None\<rparr>"
  have h: "lookup_scalar ?ov ''flag'' = Done (Some \<lparr>name = ''flag'', str = None\<rparr>) ?ov"
    by (simp add: lookup_scalar_def lookup_distinct_def deref_def g_hash_table_lookup_def
                  g_queue_peek_tail_def)
  from opts_type_bool_values [OF h] h show ?thesis
    by (simp add: g_hash_table_remove_def)
qed

subsection \<open>Signed integers outside a list\<close>

lemma int_mode_none:
  assumes "list_mode ov = LM_NONE" and "opts_type_int RANGE_MAX ov nm = Return e r ov'"
  shows "list_mode ov' = LM_NONE"
proof (cases e)
  case (Some err)
  with assms int_failure [of RANGE_MAX ov nm err r ov'] show ?thesis by simp
next
  case None
  with assms show ?thesis
    by (auto simp: opts_type_int_def with_scalar_def Let_def store_processed_def processed_def
             split: outcome.splits option.splits if_splits prod.splits
             dest: lookup_scalar_state)
qed

text \<open>
  Claim C8. With no list active (\<^verbatim>\<open>LM_NONE\<close>), a signed integer field whose value is not
  one complete integer (\<^verbatim>\<open>strtoll\<close> stops before the end of the string, as it does at the
  dash of \<^verbatim>\<open>3-7\<close>) fails with \<^verbatim>\<open>QERR_INVALID_PARAMETER_VALUE\<close>, the option's name and
  \<^verbatim>\<open>an int64 value\<close>, and the visitor is unchanged. Whatever the value, a call made in
  \<^verbatim>\<open>LM_NONE\<close> returns in \<^verbatim>\<open>LM_NONE\<close>: the interval state is entered from
  \<^verbatim>\<open>LM_IN_PROGRESS\<close> only.
\<close>

theorem scalar_int_rejects_range:
  assumes "list_mode ov = LM_NONE"
  shows "(unprocessed_opts ov = Some t \<and> g_hash_table_lookup t nm = Some q \<and> q \<noteq> [] \<and>
          str (last q) = Some s \<and> strtoll s 0 = (val, c # rest, errno) \<longrightarrow>
            opts_type_int RANGE_MAX ov nm =
              Failed (QERR_INVALID_PARAMETER_VALUE (name (last q)) ''an int64 value'') ov) \<and>
         (opts_type_int RANGE_MAX ov nm = Return e r ov' \<longrightarrow> list_mode ov' = LM_NONE)"
proof (intro conjI impI)
  assume h: "unprocessed_opts ov = Some t \<and> g_hash_table_lookup t nm = Some q \<and> q \<noteq> [] \<and>
    str (last q) = Some s \<and> strtoll s 0 = (val, c # rest, errno)"
  then have w: "\<And>f. with_scalar ov nm f = f (last q)"
    using with_scalar_last [OF assms] by blast
  show "opts_type_int RANGE_MAX ov nm =
      Failed (QERR_INVALID_PARAMETER_VALUE (name (last q)) ''an int64 value'') ov"
    using assms h by (simp add: opts_type_int_def w Let_def)
next
  assume "opts_type_int RANGE_MAX ov nm = Return e r ov'"
  with assms show "list_mode ov' = LM_NONE" by (rule int_mode_none)
qed

theorem scalar_int_rejects_range_witness:
  "let ov = \<lparr>opts_root = \<lparr>head = [\<lparr>name = ''n'', str = Some ''3-7''\<rparr>], opts_id = None\<rparr>,
             depth = 1, unprocessed_opts = Some [(''n'', [\<lparr>name = ''n'', str = Some ''3-7''\<rparr>])],
             list_mode = LM_NONE, repeated_opts = NULL, range_next = 0, range_limit = 0,
             fake_id_opt = None\<rparr>
   in list_mode ov = LM_NONE \<and> strtoll ''3-7'' 0 = (3, ''-7'', 0) \<and>
      opts_type_int 65536 ov ''n'' = Failed (QERR_INVALID_PARAMETER_VALUE ''n'' ''an int64 value'') ov"
proof -
  let ?ov = "\<lparr>opts_root = \<lparr>head = [\<lparr>name = ''n'', str = Some ''3-7''\<rparr>], opts_id = None\<rparr>,
             depth = 1, unprocessed_opts = Some [(''n'', [\<lparr>name = ''n'', str = Some ''3-7''\<rparr>])],
             list_mode = LM_NONE, repeated_opts = NULL, range_next = 0, range_limit = 0,
             fake_id_opt = None\<rparr>"
  have m: "list_mode ?ov = LM_NONE" by simp
  from scalar_int_rejects_range [OF m, of "[(''n'', [\<lparr>name = ''n'', str = Some ''3-7''\<rparr>])]" "''n''"
      "[\<lparr>name = ''n'', str = Some ''3-7''\<rparr>]" "''3-7''" 3 "CHR ''-''" "''7''" 0 65536]
  show ?thesis unfolding Let_def by (simp add: g_hash_table_lookup_def strtoll_3_7)
qed

subsection \<open>The invariant of the index\<close>

text \<open>
  Claim C9. The outermost \<^verbatim>\<open>opts_start_struct\<close> (depth 0) builds an index in which a name
  is present exactly when the options (with the fake \<^verbatim>\<open>id\<close> option) hold an occurrence of
  it, its queue being these occurrences in order. Every callback of the visitor that
  returns preserves the invariant of the index: each name has one queue, and every queue
  stored is non-empty and holds occurrences of its name only, so that a queue whose last
  occurrence is consumed (by a list pop or by a scalar decode of the name) is no longer
  in the index when the call returns. So the invariant holds after any sequence of calls
  made on a new visitor. Under the invariant \<^verbatim>\<open>opts_next_list\<close>, called in a list whose
  queue is live, always returns: the pop finds an occurrence.
\<close>

theorem index_invariant:
  "(depth ov = 0 \<and> opts_start_struct ov = Return e r ov' \<longrightarrow>
      index_inv ov' \<and>
      (\<exists>t. unprocessed_opts ov' = Some t \<and>
           (\<forall>k. g_hash_table_lookup t k =
                  (let q = filter (\<lambda>opt. name opt = k)
                             (head (opts_root ov) @
                              (case opts_id (opts_root ov) of
                                 None \<Rightarrow> []
                               | Some i \<Rightarrow> [\<lparr>name = ''id'', str = Some i\<rparr>]))
                   in if q = [] then None else Some q)))) \<and>
   (index_inv ov \<and> visit RANGE_MAX strtosz c ov = Return ea va ova \<longrightarrow> index_inv ova) \<and>
   (index_inv ov \<and> unprocessed_opts ov = Some t \<and> g_hash_table_lookup t k = Some q \<longrightarrow>
      q \<noteq> [] \<and> list_all (\<lambda>opt. name opt = k) q) \<and>
   (index_inv ov \<and> list_mode ov \<noteq> LM_NONE \<and> deref ov (repeated_opts ov) = Some q \<longrightarrow>
      (\<exists>b ovn. opts_next_list ov = Done b ovn)) \<and>
   (visits RANGE_MAX strtosz cs (opts_visitor_new opts) = Some ovs \<longrightarrow> index_inv ovs)"
proof (intro conjI impI)
  assume a: "depth ov = 0 \<and> opts_start_struct ov = Return e r ov'"
  then show "index_inv ov'" by (auto intro: inv_start_struct)
  from a start_struct_index [of ov e r ov']
  show "\<exists>t. unprocessed_opts ov' = Some t \<and>
           (\<forall>k. g_hash_table_lookup t k =
                  (let q = filter (\<lambda>opt. name opt = k)
                             (head (opts_root ov) @
                              (case opts_id (opts_root ov) of
                                 None \<Rightarrow> []
                               | Some i \<Rightarrow> [\<lparr>name = ''id'', str = Some i\<rparr>]))
                   in if q = [] then None else Some q))"
    by blast
next
  assume "index_inv ov \<and> visit RANGE_MAX strtosz c ov = Return ea va ova"
  then show "index_inv ova" by (auto intro: inv_visit)
next
  assume a: "index_inv ov \<and> unprocessed_opts ov = Some t \<and> g_hash_table_lookup t k = Some q"
  then have "table_inv t" by (auto simp: index_inv_def)
  with a table_inv_lookup [of t k q]
  show "q \<noteq> []" and "list_all (\<lambda>opt. name opt = k) q" by simp_all
next
  assume "index_inv ov \<and> list_mode ov \<noteq> LM_NONE \<and> deref ov (repeated_opts ov) = Some q"
  then show "\<exists>b ovn. opts_next_list ov = Done b ovn"
    using next_list_returns [of ov q] by blast
next
  assume "visits RANGE_MAX strtosz cs (opts_visitor_new opts) = Some ovs"
  then show "index_inv ovs" by (rule inv_visits [OF inv_new])
qed

theorem index_invariant_witness:
  "let a1 = \<lparr>name = ''a'', str = Some ''1''\<rparr>; b2 = \<lparr>name = ''b'', str = Some ''2''\<rparr>;
       a3 = \<lparr>name = ''a'', str = Some ''3''\<rparr>; fake = \<lparr>name = ''id'', str = Some ''x''\<rparr>;
       ov = opts_visitor_new \<lparr>head = [a1, b2, a3], opts_id = Some ''x''\<rparr>;
       ov' = ov\<lparr>depth := 1, unprocessed_opts := Some [(''a'', [a1, a3]), (''b'', [b2]), (''id'', [fake])],
                fake_id_opt := Some fake\<rparr>;
       ov'' = ov'\<lparr>unprocessed_opts := Some [(''a'', [a1, a3]), (''id'', [fake])]\<rparr>
   in depth ov = 0 \<and> opts_start_struct ov = Returned ov' \<and> index_inv ov' \<and>
      visit 65536 (\<lambda>s. (0, s)) (Type_str ''b'') ov' = Done (V_str ''2'') ov'' \<and> index_inv ov''"
proof -
  let ?a1 = "\<lparr>name = ''a'', str = Some ''1''\<rparr>" and ?b2 = "\<lparr>name = ''b'', str = Some ''2''\<rparr>"
  let ?a3 = "\<lparr>name = ''a'', str = Some ''3''\<rparr>" and ?fake = "\<lparr>name = ''id'', str = Some ''x''\<rparr>"
  let ?ov = "opts_visitor_new \<lparr>head = [?a1, ?b2, ?a3], opts_id = Some ''x''\<rparr>"
  let ?ov' = "?ov\<lparr>depth := 1,
                  unprocessed_opts := Some [(''a'', [?a1, ?a3]), (''b'', [?b2]), (''id'', [?fake])],
                  fake_id_opt := Some ?fake\<rparr>"
  let ?ov'' = "?ov'\<lparr>unprocessed_opts := Some [(''a'', [?a1, ?a3]), (''id'', [?fake])]\<rparr>"
  have d: "depth ?ov = 0" by (simp add: opts_visitor_new_def)
  have s: "opts_start_struct ?ov = Returned ?ov'"
    by (simp add: opts_start_struct_def opts_visitor_new_def opts_visitor_insert_def
                  g_hash_table_insert_def g_hash_table_lookup_def Let_def)
  have i': "index_inv ?ov'"
    using index_invariant [where ov = ?ov and ov' = ?ov' and e = None and r = None] d s by simp
  have v: "visit 65536 (\<lambda>s. (0, s)) (Type_str ''b'') ?ov' = Done (V_str ''2'') ?ov''"
    by (simp add: visit_def opts_type_str_def with_scalar_def lookup_scalar_def lookup_distinct_def
                  deref_def g_hash_table_lookup_def g_queue_peek_tail_def store_processed_def
                  processed_def g_hash_table_remove_def opts_visitor_new_def)
  have i'': "index_inv ?ov''"
    using index_invariant [where ov = ?ov' and c = "Type_str ''b''" and ova = ?ov''
        and RANGE_MAX = 65536 and strtosz = "\<lambda>s. (0, s)" and ea = None and va = "Some (V_str ''2'')"]
      i' v by simp
  from d s i' v i'' show ?thesis unfolding Let_def by simp
qed

subsection \<open>A failed decode changes nothing\<close>

text \<open>
  Claim C10. Whenever the boolean, signed, unsigned or size decoder returns with an error
  set (\<^verbatim>\<open>QERR_INVALID_PARAMETER_VALUE\<close> in particular), the visitor is exactly as it was
  before the call (index, queues, list mode and range counters) and no value has been
  written: the option is consumed only after a successful parse.
\<close>

theorem decode_failure_keeps_state:
  "(opts_type_bool ov nm = Return (Some e) rb ov' \<longrightarrow> ov' = ov \<and> rb = None) \<and>
   (opts_type_int RANGE_MAX ov nm = Return (Some e) ri ov' \<longrightarrow> ov' = ov \<and> ri = None) \<and>
   (opts_type_uint64 RANGE_MAX ov nm = Return (Some e) ru ov' \<longrightarrow> ov' = ov \<and> ru = None) \<and>
   (opts_type_size strtosz ov nm = Return (Some e) rs ov' \<longrightarrow> ov' = ov \<and> rs = None)"
  using bool_failure [of ov nm e rb ov'] int_failure [of RANGE_MAX ov nm e ri ov']
    uint64_failure [of RANGE_MAX ov nm e ru ov'] size_failure [of strtosz ov nm e rs ov']
  by blast

theorem decode_failure_keeps_state_witness:
  "let ov = \<lparr>opts_root = \<lparr>head = [\<lparr>name = ''f'', str = Some ''x''\<rparr>], opts_id = None\<rparr>,
             depth = 1, unprocessed_opts = Some [(''f'', [\<lparr>name = ''f'', str = Some ''x''\<rparr>])],
             list_mode = LM_NONE, repeated_opts = NULL, range_next = 0, range_limit = 0,
             fake_id_opt = None\<rparr>
   in opts_type_bool ov ''f'' = Failed (QERR_INVALID_PARAMETER_VALUE ''f'' ''on|yes|y|off|no|n'') ov \<and>
      opts_type_int 65536 ov ''f'' = Failed (QERR_INVALID_PARAMETER_VALUE ''f'' ''an int64 value'') ov \<and>
      opts_type_uint64 65536 ov ''f'' = Failed (QERR_INVALID_PARAMETER_VALUE ''f'' ''a uint64 value'') ov \<and>
      opts_type_size (\<lambda>s. (0, s)) ov ''f'' =
        Failed (QERR_INVALID_PARAMETER_VALUE ''f''
                 ''a size value representible as a non-negative int64'') ov"
proof -
  let ?ov = "\<lparr>opts_root = \<lparr>head = [\<lparr>name = ''f'', str = Some ''x''\<rparr>], opts_id = None\<rparr>,
             depth = 1, unprocessed_opts = Some [(''f'', [\<lparr>name = ''f'', str = Some ''x''\<rparr>])],
             list_mode = LM_NONE, repeated_opts = NULL, range_next = 0, range_limit = 0,
             fake_id_opt = None\<rparr>"
  have l: "lookup_scalar ?ov ''f'' = Done (Some \<lparr>name = ''f'', str = Some ''x''\<rparr>) ?ov"
    by (simp add: lookup_scalar_def lookup_distinct_def deref_def g_hash_table_lookup_def
                  g_queue_peek_tail_def)
  have b: "\<exists>r ov'. opts_type_bool ?ov ''f'' =
             Return (Some (QERR_INVALID_PARAMETER_VALUE ''f'' ''on|yes|y|off|no|n'')) r ov'"
    by (simp add: opts_type_bool_def with_scalar_def l)
  have i: "\<exists>r ov'. opts_type_int 65536 ?ov ''f'' =
             Return (Some (QERR_INVALID_PARAMETER_VALUE ''f'' ''an int64 value'')) r ov'"
    by (simp add: opts_type_int_def Let_def with_scalar_def l strtoll_def scan_number_def isspace_def
                  digit_of_def)
  have u: "\<exists>r ov'. opts_type_uint64 65536 ?ov ''f'' =
             Return (Some (QERR_INVALID_PARAMETER_VALUE ''f'' ''a uint64 value'')) r ov'"
    by (simp add: opts_type_uint64_def Let_def with_scalar_def l parse_uint_def strtoull_def
                  scan_number_def isspace_def digit_of_def EINVAL_def)
  have s: "\<exists>r ov'. opts_type_size (\<lambda>s. (0, s)) ?ov ''f'' =
             Return (Some (QERR_INVALID_PARAMETER_VALUE ''f''
                 ''a size value representible as a non-negative int64'')) r ov'"
    by (simp add: opts_type_size_def with_scalar_def l)
  from b i u s decode_failure_keeps_state show ?thesis
    unfolding Let_def by metis
qed

end
